theory Spec2Isabelle
  imports Main "HOL-Library.AList" "HOL-Library.Sublist"
begin

section \<open>Python values and containers\<close>

text \<open>
  A Python \<open>dict\<close> keeps its keys unique and in insertion order. It is modelled as an
  association list: \<open>d[k] = v\<close> is \<^const>\<open>AList.update\<close> (an existing key keeps its
  position, a new key goes to the end), \<open>del d[k]\<close> is \<^const>\<open>AList.delete\<close>,
  \<open>d.get(k)\<close> is \<^const>\<open>map_of\<close> and \<open>k in d\<close> is membership in the keys.
\<close>

type_synonym ('k, 'v) dict = "('k \<times> 'v) list"

datatype pyval = PNone | PBool bool | PInt int | PStr string | PList "pyval list"

definition keys :: "('k, 'v) dict \<Rightarrow> 'k list" where
  "keys d = map fst d"

definition has_key :: "'k \<Rightarrow> ('k, 'v) dict \<Rightarrow> bool" where
  "has_key k d = (k \<in> set (keys d))"

text \<open>The number of entries a dict holds under one key.\<close>

definition entries_for :: "'k \<Rightarrow> ('k, 'v) dict \<Rightarrow> nat" where
  "entries_for k d = length (filter (\<lambda>kv. fst kv = k) d)"

text \<open>\<open>d.update(e)\<close>: every item of \<open>e\<close>, in order, is stored into \<open>d\<close>.\<close>

fun dict_update :: "('k, 'v) dict \<Rightarrow> ('k, 'v) dict \<Rightarrow> ('k, 'v) dict" where
  "dict_update d [] = d"
| "dict_update d ((k, v) # e) = dict_update (AList.update k v d) e"

text \<open>
  \<open>collections.deque(maxlen=n).append(x)\<close>: the item is added on the right and, when the
  deque then holds more than \<open>maxlen\<close> items, one item is dropped from the left.
\<close>

definition deque_append :: "nat \<Rightarrow> 'a list \<Rightarrow> 'a \<Rightarrow> 'a list" where
  "deque_append maxlen xs x =
     (let ys = xs @ [x] in if maxlen < length ys then tl ys else ys)"

text \<open>
  The slice \<open>xs[i:]\<close>: a negative start counts from the end and is clipped at the
  beginning of the list; a start beyond the end gives the empty list.
\<close>

definition slice_from :: "int \<Rightarrow> 'a list \<Rightarrow> 'a list" where
  "slice_from i xs =
     (if i < 0 then drop (nat (int (length xs) + i)) xs else drop (nat i) xs)"

text \<open>Truthiness of an optional string argument: \<open>None\<close> and \<open>""\<close> are falsy.\<close>

fun truthy :: "string option \<Rightarrow> bool" where
  "truthy None = False"
| "truthy (Some s) = (s \<noteq> [])"


section \<open>The monitor (app/monitoring.py)\<close>

type_synonym datetime = nat

record event =
  ev_session_id :: string
  ev_type :: string
  ev_agent_type :: "string option"
  ev_action :: "string option"
  ev_message :: string
  ev_level :: string
  ev_timestamp :: string
  ev_data :: "(string, pyval) dict"

record session =
  s_id :: string
  s_description :: string
  s_user_id :: "string option"
  s_started_at :: datetime
  s_status :: string
  s_events_count :: int
  s_last_activity :: datetime
  s_ended_at :: "datetime option"

text \<open>
  A subscriber is a callable outside the monitor, known by its identity. Called with the
  event, it acts on the world outside the monitor (the type \<open>'w\<close>) and may
  unsubscribe callables, itself among them (\<open>unsubscribe\<close> takes no lock); then it
  returns, raises an \<open>Exception\<close>, or raises something that is a \<open>BaseException\<close> but
  not an \<open>Exception\<close> (\<open>KeyboardInterrupt\<close>, \<open>SystemExit\<close>), which
  \<open>except Exception\<close> does not catch. The result of a call is its outcome, the world
  after it and the identities it has unsubscribed, in their order. A callback that
  subscribes, or that calls a method of the monitor that takes the lock (it would wait
  for ever for the lock that the logging call holds), is outside this model.
\<close>

datatype outcome = Returned | Raised string | Escaped string

record 'w callback =
  cb_id :: nat
  cb_run :: "event \<Rightarrow> 'w \<Rightarrow> outcome \<times> 'w \<times> nat list"

text \<open>What lies outside the monitor: the subscribers' world and the module's error log.\<close>

record 'w outside =
  world :: 'w
  error_log :: "string list"

record 'w monitor =
  events :: "event list"
  subscribers :: "'w callback list"
  active_sessions :: "(string, session) dict"

definition MAXLEN :: nat where
  "MAXLEN = 1000"

definition AgentMonitor_init :: "'w monitor" where
  "AgentMonitor_init = \<lparr>events = [], subscribers = [], active_sessions = []\<rparr>"

text \<open>
  \<open>unsubscribe\<close>: the first occurrence of the callable leaves the list, if there is one.
\<close>

fun remove_id :: "nat \<Rightarrow> 'w callback list \<Rightarrow> 'w callback list" where
  "remove_id i [] = []"
| "remove_id i (c # cs) = (if cb_id c = i then cs else c # remove_id i cs)"


definition unsubscribe :: "'w monitor \<Rightarrow> 'w callback \<Rightarrow> 'w monitor" where
  "unsubscribe m callback = m\<lparr>subscribers := remove_id (cb_id callback) (subscribers m)\<rparr>"

lemma length_remove_id: "length (remove_id i cs) \<le> length cs"
  by (induction cs) auto

lemma length_remove_ids: "length (foldl (\<lambda>cs j. remove_id j cs) cs js) \<le> length cs"
proof (induction js arbitrary: cs)
  case Nil
  show ?case by simp
next
  case (Cons j js)
  have "length (foldl (\<lambda>cs j. remove_id j cs) (remove_id j cs) js) \<le> length (remove_id j cs)"
    by (rule Cons.IH)
  also have "\<dots> \<le> length cs" by (rule length_remove_id)
  finally show ?case by simp
qed

text \<open>
  The notification loop of \<open>_add_event\<close>, \<open>for callback in self.subscribers\<close>. The
  loop goes through the list itself, not a copy: it takes the item at the next index as
  long as the list, as it is by then, has one. The result is \<open>Inr ()\<close> when the loop
  ends and \<open>Inl s\<close> when something not caught by \<open>except Exception\<close> leaves it,
  together with the list of subscribers as the calls have left it.
\<close>

function notify ::
  "nat \<Rightarrow> 'w callback list \<Rightarrow> event \<Rightarrow> 'w outside \<Rightarrow>
   (string + unit) \<times> 'w callback list \<times> 'w outside" where
  "notify i subs e out =
     (if i < length subs
      then (case cb_run (subs ! i) e (world out) of
              (result, w, unsubscribed) \<Rightarrow>
                (case result of
                   Returned \<Rightarrow>
                     notify (Suc i) (foldl (\<lambda>cs j. remove_id j cs) subs unsubscribed) e
                       (out\<lparr>world := w\<rparr>)
                 | Raised msg \<Rightarrow>
                     notify (Suc i) (foldl (\<lambda>cs j. remove_id j cs) subs unsubscribed) e
                       (out\<lparr>world := w,
                            error_log :=
                              error_log out @ [''Erreur notification subscriber: '' @ msg]\<rparr>)
                 | Escaped s \<Rightarrow>
                     (Inl s, foldl (\<lambda>cs j. remove_id j cs) subs unsubscribed,
                      out\<lparr>world := w\<rparr>)))
      else (Inr (), subs, out))"
  by pat_completeness auto
termination
proof (relation "measure (\<lambda>(i, subs, e, out). length subs - i)", goal_cases)
  case 1
  show ?case by simp
next
  case (2 i subs e out x w y unsubscribed)
  from length_remove_ids [of subs unsubscribed] 2(1) show ?case by simp
next
  case (3 i subs e out x w y unsubscribed msg)
  from length_remove_ids [of subs unsubscribed] 3(1) show ?case by simp
qed

declare notify.simps [simp del]

definition add_event ::
  "'w monitor \<Rightarrow> event \<Rightarrow> 'w outside \<Rightarrow> (string + unit) \<times> 'w monitor \<times> 'w outside" where
  "add_event m e out =
     (let m' = m\<lparr>events := deque_append MAXLEN (events m) e\<rparr>;
          (r, subs, out') = notify 0 (subscribers m') e out
      in (r, m'\<lparr>subscribers := subs\<rparr>, out'))"

text \<open>
  \<open>log_agent_action\<close> reads the clock twice: once for the event's timestamp (already in
  ISO format here) and once for the session's \<open>last_activity\<close>.
\<close>

definition log_agent_action ::
  "'w monitor \<Rightarrow> string \<Rightarrow> string \<Rightarrow> string \<Rightarrow> string \<Rightarrow> string \<Rightarrow>
   (string, pyval) dict option \<Rightarrow> string \<Rightarrow> datetime \<Rightarrow> 'w outside \<Rightarrow>
   (string + unit) \<times> 'w monitor \<times> 'w outside" where
  "log_agent_action m session_id agent_type action message level data now_iso now out =
     (let event = \<lparr>ev_session_id = session_id, ev_type = ''agent_action'',
                   ev_agent_type = Some agent_type, ev_action = Some action,
                   ev_message = message, ev_level = level, ev_timestamp = now_iso,
                   ev_data = (case data of None \<Rightarrow> [] | Some d \<Rightarrow> d)\<rparr>;
          m1 = (case map_of (active_sessions m) session_id of
                  None \<Rightarrow> m
                | Some s \<Rightarrow>
                    m\<lparr>active_sessions :=
                        AList.update session_id
                          (s\<lparr>s_events_count := s_events_count s + 1,
                             s_last_activity := now\<rparr>)
                          (active_sessions m)\<rparr>)
      in add_event m1 event out)"

text \<open>A caller appending one event after the other, going on whatever a call gave.\<close>

fun add_events :: "'w monitor \<Rightarrow> event list \<Rightarrow> 'w outside \<Rightarrow> 'w monitor \<times> 'w outside" where
  "add_events m [] out = (m, out)"
| "add_events m (e # es) out =
     (case add_event m e out of (r, m', out') \<Rightarrow> add_events m' es out')"

definition get_recent_events ::
  "'w monitor \<Rightarrow> int \<Rightarrow> string option \<Rightarrow> string option \<Rightarrow> event list" where
  "get_recent_events m limit session_id level =
     (let events0 = events m;
          events1 = (if truthy session_id
                     then filter (\<lambda>e. Some (ev_session_id e) = session_id) events0 else events0);
          events2 = (if truthy level
                     then filter (\<lambda>e. Some (ev_level e) = level) events1 else events1)
      in slice_from (- limit) events2)"

text \<open>
  \<open>start_session\<close> also reads the clock for each of its three timestamps. The message
  of its event is written here without the accents of the source's text.
\<close>

definition start_session ::
  "'w monitor \<Rightarrow> string \<Rightarrow> string \<Rightarrow> string option \<Rightarrow> datetime \<Rightarrow> datetime \<Rightarrow> string \<Rightarrow>
   'w outside \<Rightarrow> (string + unit) \<times> 'w monitor \<times> 'w outside" where
  "start_session m session_id description user_id now1 now2 now_iso out =
     (let m1 = m\<lparr>active_sessions :=
                   AList.update session_id
                     \<lparr>s_id = session_id, s_description = description, s_user_id = user_id,
                      s_started_at = now1, s_status = ''active'', s_events_count = 0,
                      s_last_activity = now2, s_ended_at = None\<rparr>
                     (active_sessions m)\<rparr>
      in add_event m1
           \<lparr>ev_session_id = session_id, ev_type = ''session_start'',
            ev_agent_type = None, ev_action = None,
            ev_message = ''Nouvelle session demarree: '' @ description,
            ev_level = ''info'', ev_timestamp = now_iso,
            ev_data = [(''description'', PStr description),
                       (''user_id'', case user_id of None \<Rightarrow> PNone | Some u \<Rightarrow> PStr u)]\<rparr>
           out)"


section \<open>The graph store (networkx.DiGraph as the engine uses it)\<close>

record variable_info =
  v_name :: string
  v_type :: string
  v_description :: string
  v_data_type :: string
  v_legal_reference :: "string option"
  v_calculation_formula :: "string option"
  v_depends_on :: "string list"
  v_created_at :: string

text \<open>
  The first three are the \<open>ValueError\<close>s that the engine raises itself, told apart by
  their message. \<open>KeyError\<close>, \<open>TypeError\<close> and \<open>AttributeError\<close> are the built-in
  classes; \<open>NoSignature\<close> is what \<open>inspect.signature\<close> raises for a callable whose
  signature it cannot find. What a calculation function raises is passed through by the
  engine unchanged (\<open>ExecutionFailure\<close>); a failed binding of its keyword arguments is
  one such failure.
\<close>

datatype error =
    UnknownNode string
  | MissingArguments string "string list"
  | EndpointsMustExist
  | KeyError string
  | TypeError string
  | AttributeError string
  | NoSignature
  | ExecutionFailure string

text \<open>
  A callable is opaque to the engine except for its name, its signature (its text and
  the names of its parameters, \<open>inspect.signature(f).parameters\<close>) and its docstring;
  \<open>fn_call\<close> is the call \<open>f(**kwargs)\<close>. Not every callable has a \<open>__name__\<close>
  (a \<open>functools.partial\<close> has none) or a signature that \<open>inspect\<close> finds (some
  built-in functions have none): these are \<open>None\<close> here.
\<close>

record py_signature =
  sig_text :: string
  sig_parameters :: "string list"

record pyfunction =
  fn_name :: "string option"
  fn_signature :: "py_signature option"
  fn_doc :: string
  fn_call :: "(string, pyval) dict \<Rightarrow> error + pyval"

text \<open>
  The attributes of a node. \<open>update_calculation_node\<close> stores what it is given, so the
  entry \<open>input_variables\<close> need not stay a list of names: \<open>None\<close> stands for a value
  that cannot be iterated.
\<close>

record node_attrs =
  n_description :: string
  n_function_name :: string
  n_function_signature :: string
  n_function_doc :: string
  n_output_variable :: "string option"
  n_input_variables :: "string list option"
  n_legal_reference :: "string option"
  n_node_type :: string
  n_created_at :: string

type_synonym edge_attrs = "(string, pyval) dict"

text \<open>
  A \<open>DiGraph\<close> is a dict of nodes with their attributes and, for every node, the dict of
  its successors with the attributes of the edge. The library mirrors the successor
  table in a predecessor table; here predecessors are read off the successor table.
\<close>

record digraph =
  g_node :: "(string, node_attrs) dict"
  g_adj :: "(string, (string, edge_attrs) dict) dict"

definition DiGraph :: digraph where
  "DiGraph = \<lparr>g_node = [], g_adj = []\<rparr>"

definition nodes :: "digraph \<Rightarrow> string list" where
  "nodes g = keys (g_node g)"

definition has_node :: "digraph \<Rightarrow> string \<Rightarrow> bool" where
  "has_node g n = has_key n (g_node g)"

definition neighbors :: "digraph \<Rightarrow> string \<Rightarrow> string list" where
  "neighbors g n = (case map_of (g_adj g) n of None \<Rightarrow> [] | Some nbrs \<Rightarrow> keys nbrs)"

text \<open>\<open>G.edges(data=True)\<close>: node by node, each node's out-edges in their order.\<close>

definition edges :: "digraph \<Rightarrow> (string \<times> string \<times> edge_attrs) list" where
  "edges g = concat (map (\<lambda>(u, nbrs). map (\<lambda>(v, d). (u, v, d)) nbrs) (g_adj g))"

definition edges_between :: "digraph \<Rightarrow> string \<Rightarrow> string \<Rightarrow> (string \<times> string \<times> edge_attrs) list" where
  "edges_between g u v = filter (\<lambda>e. fst e = u \<and> fst (snd e) = v) (edges g)"

definition has_edge :: "digraph \<Rightarrow> string \<Rightarrow> string \<Rightarrow> bool" where
  "has_edge g u v = (case map_of (g_adj g) u of None \<Rightarrow> False | Some nbrs \<Rightarrow> has_key v nbrs)"

definition in_degree :: "digraph \<Rightarrow> string \<Rightarrow> int" where
  "in_degree g n = int (length (filter (\<lambda>e. fst (snd e) = n) (edges g)))"

definition out_degree :: "digraph \<Rightarrow> string \<Rightarrow> int" where
  "out_degree g n = int (length (neighbors g n))"

text \<open>
  \<open>add_node(n, **attr)\<close> with every attribute given: a new node gets an empty successor
  dict, a node that is already there keeps its edges and gets the attributes.
\<close>

definition add_node :: "digraph \<Rightarrow> string \<Rightarrow> node_attrs \<Rightarrow> digraph" where
  "add_node g n attr =
     (if \<not> has_key n (g_node g)
      then g\<lparr>g_node := AList.update n attr (g_node g), g_adj := AList.update n [] (g_adj g)\<rparr>
      else g\<lparr>g_node := AList.update n attr (g_node g)\<rparr>)"

text \<open>
  \<open>add_edge(u, v, **attr)\<close> between two nodes of the graph: the attributes are merged
  into the attribute dict the edge already has, or into a fresh one.
\<close>

definition add_edge :: "digraph \<Rightarrow> string \<Rightarrow> string \<Rightarrow> edge_attrs \<Rightarrow> digraph" where
  "add_edge g u v attr =
     (let nbrs = (case map_of (g_adj g) u of None \<Rightarrow> [] | Some d \<Rightarrow> d);
          datadict = (case map_of nbrs v of None \<Rightarrow> [] | Some d \<Rightarrow> d)
      in g\<lparr>g_adj := AList.update u (AList.update v (dict_update datadict attr) nbrs) (g_adj g)\<rparr>)"

text \<open>\<open>remove_node(n)\<close> for a node of the graph: the node and every edge at it go.\<close>

definition remove_node :: "digraph \<Rightarrow> string \<Rightarrow> digraph" where
  "remove_node g n =
     g\<lparr>g_node := AList.delete n (g_node g),
       g_adj := map (\<lambda>(u, nbrs). (u, AList.delete n nbrs)) (AList.delete n (g_adj g))\<rparr>"

text \<open>\<open>remove_edge(u, v)\<close> for an edge of the graph.\<close>

definition remove_edge :: "digraph \<Rightarrow> string \<Rightarrow> string \<Rightarrow> digraph" where
  "remove_edge g u v =
     g\<lparr>g_adj := map (\<lambda>(a, nbrs). (a, if a = u then AList.delete v nbrs else nbrs)) (g_adj g)\<rparr>"


subsection \<open>Topological sort\<close>

text \<open>
  What the library raises. \<open>NetworkXError\<close> and \<open>NetworkXUnfeasible\<close> are both
  subclasses of \<open>NetworkXException\<close>, the second through \<open>NetworkXAlgorithmError\<close>;
  neither is a subclass of the other. \<open>RuntimeError\<close> is the built-in class.
\<close>

datatype exception = NetworkXError string | NetworkXUnfeasible string | RuntimeError string

fun isinstance_NetworkXError :: "exception \<Rightarrow> bool" where
  "isinstance_NetworkXError (NetworkXError msg) = True"
| "isinstance_NetworkXError (NetworkXUnfeasible msg) = False"
| "isinstance_NetworkXError (RuntimeError msg) = False"

fun str_exception :: "exception \<Rightarrow> string" where
  "str_exception (NetworkXError msg) = msg"
| "str_exception (NetworkXUnfeasible msg) = msg"
| "str_exception (RuntimeError msg) = msg"

text \<open>
  \<open>topological_sort\<close> is the library's generation-wise algorithm: the nodes without
  predecessors form the first generation; going through a generation, every out-edge
  lowers the count of its target, and a target whose count reaches zero is deleted from
  the count table and joins the next generation. Counts left when no generation remains
  mean that some nodes were never reached.
\<close>

fun visit_children ::
  "string list \<Rightarrow> (string, int) dict \<Rightarrow> string list \<Rightarrow> exception + (string, int) dict \<times> string list" where
  "visit_children [] indegree_map zero_indegree = Inr (indegree_map, zero_indegree)"
| "visit_children (child # rest) indegree_map zero_indegree =
     (case map_of indegree_map child of
        None \<Rightarrow> Inl (RuntimeError ''Graph changed during iteration'')
      | Some d \<Rightarrow>
          if d - 1 = 0
          then visit_children rest (AList.delete child indegree_map) (zero_indegree @ [child])
          else visit_children rest (AList.update child (d - 1) indegree_map) zero_indegree)"

fun visit_generation ::
  "digraph \<Rightarrow> string list \<Rightarrow> (string, int) dict \<Rightarrow> string list \<Rightarrow>
   exception + (string, int) dict \<times> string list" where
  "visit_generation g [] indegree_map zero_indegree = Inr (indegree_map, zero_indegree)"
| "visit_generation g (node # rest) indegree_map zero_indegree =
     (if \<not> has_node g node then Inl (RuntimeError ''Graph changed during iteration'')
      else case visit_children (neighbors g node) indegree_map zero_indegree of
             Inl e \<Rightarrow> Inl e
           | Inr (indegree_map', zero_indegree') \<Rightarrow>
               visit_generation g rest indegree_map' zero_indegree')"

lemma length_update_present:
  "map_of al k = Some d \<Longrightarrow> length (AList.update k v al) = length al"
  by (induction al) (auto split: if_splits)

lemma length_delete_present:
  "map_of al k = Some d \<Longrightarrow> length (AList.delete k al) < length al"
  by (induction al) (auto simp: less_Suc_eq_le AList.length_delete_le split: if_splits)

lemma visit_children_length:
  "visit_children cs im z = Inr (im', z') \<Longrightarrow>
   length im' \<le> length im \<and> length z \<le> length z' \<and> (z' \<noteq> z \<longrightarrow> length im' < length im)"
proof (induction cs arbitrary: im z)
  case Nil
  then show ?case by simp
next
  case (Cons c cs)
  from Cons.prems obtain d where d: "map_of im c = Some d"
    by (auto split: option.splits)
  show ?case
  proof (cases "d - 1 = 0")
    case True
    with Cons.prems d have "visit_children cs (AList.delete c im) (z @ [c]) = Inr (im', z')"
      by simp
    from Cons.IH [OF this] have
      "length im' \<le> length (AList.delete c im)" "length (z @ [c]) \<le> length z'"
      by simp_all
    moreover have "length (AList.delete c im) < length im"
      using d by (rule length_delete_present)
    ultimately show ?thesis by auto
  next
    case False
    with Cons.prems d have "visit_children cs (AList.update c (d - 1) im) z = Inr (im', z')"
      by simp
    from Cons.IH [OF this] d show ?thesis
      by (simp add: length_update_present)
  qed
qed

lemma visit_generation_length:
  "visit_generation g ns im z = Inr (im', z') \<Longrightarrow>
   length im' \<le> length im \<and> length z \<le> length z' \<and> (z' \<noteq> z \<longrightarrow> length im' < length im)"
proof (induction ns arbitrary: im z)
  case Nil
  then show ?case by simp
next
  case (Cons n ns)
  from Cons.prems obtain im1 z1 where
    c: "visit_children (neighbors g n) im z = Inr (im1, z1)" and
    r: "visit_generation g ns im1 z1 = Inr (im', z')"
    by (auto split: if_splits sum.splits)
  from visit_children_length [OF c] Cons.IH [OF r] show ?case
    by (cases "z1 = z") auto
qed

function generations ::
  "digraph \<Rightarrow> string list \<Rightarrow> (string, int) dict \<Rightarrow> exception + string list list" where
  "generations g zero_indegree indegree_map =
     (if zero_indegree \<noteq> []
      then (case visit_generation g zero_indegree indegree_map [] of
              Inl e \<Rightarrow> Inl e
            | Inr (indegree_map', zero_indegree') \<Rightarrow>
                (case generations g zero_indegree' indegree_map' of
                   Inl e \<Rightarrow> Inl e
                 | Inr later \<Rightarrow> Inr (zero_indegree # later)))
      else if indegree_map \<noteq> []
      then Inl (NetworkXUnfeasible ''Graph contains a cycle or graph changed during iteration'')
      else Inr [])"
  by pat_completeness auto
termination
proof (relation "measure (\<lambda>(g, z, im). 2 * length im + (if z = [] then 0 else 1))", goal_cases)
  case 1
  show ?case by simp
next
  case (2 g z im x im' z')
  from visit_generation_length [of g z im "[]" im' z'] 2 show ?case
    by (cases "z' = []") auto
qed

declare generations.simps [simp del]

definition topological_sort :: "digraph \<Rightarrow> exception + string list" where
  "topological_sort g =
     (let indegree_map = filter (\<lambda>(v, d). d > 0) (map (\<lambda>v. (v, in_degree g v)) (nodes g));
          zero_indegree = map fst (filter (\<lambda>(v, d). d = 0) (map (\<lambda>v. (v, in_degree g v)) (nodes g)))
      in case generations g zero_indegree indegree_map of
           Inl e \<Rightarrow> Inl e
         | Inr gens \<Rightarrow> Inr (concat gens))"


section \<open>The graph engine (payroll_variable_agent.py)\<close>

record impact_source =
  is_description :: string
  is_convention :: "string option"
  is_timestamp :: string

record PayrollVariableGraph =
  graph :: digraph
  function_registry :: "(string, pyfunction) dict"
  input_variables :: "(string, variable_info) dict"
  intermediate_variables :: "(string, variable_info) dict"
  impact_source :: "impact_source option"

definition PayrollVariableGraph_init :: PayrollVariableGraph where
  "PayrollVariableGraph_init =
     \<lparr>graph = DiGraph, function_registry = [], input_variables = [],
      intermediate_variables = [], impact_source = None\<rparr>"

text \<open>The clock reading \<open>datetime.now().isoformat()\<close> is the argument \<open>now\<close>.\<close>

definition add_variable ::
  "PayrollVariableGraph \<Rightarrow> string \<Rightarrow> string \<Rightarrow> string \<Rightarrow> string \<Rightarrow> string option \<Rightarrow>
   string option \<Rightarrow> string list option \<Rightarrow> string \<Rightarrow> PayrollVariableGraph" where
  "add_variable self var_name var_type description data_type legal_reference
     calculation_formula depends_on now =
     (let variable_info =
            \<lparr>v_name = var_name, v_type = var_type, v_description = description,
             v_data_type = data_type, v_legal_reference = legal_reference,
             v_calculation_formula = calculation_formula,
             v_depends_on = (case depends_on of None \<Rightarrow> [] | Some ds \<Rightarrow> ds),
             v_created_at = now\<rparr>
      in if var_type = ''input''
         then self\<lparr>input_variables := AList.update var_name variable_info (input_variables self)\<rparr>
         else self\<lparr>intermediate_variables :=
                     AList.update var_name variable_info (intermediate_variables self)\<rparr>)"

definition remove_variable :: "PayrollVariableGraph \<Rightarrow> string \<Rightarrow> bool \<times> PayrollVariableGraph" where
  "remove_variable self var_name =
     (let removed = False;
          (removed, self) =
            (if has_key var_name (input_variables self)
             then (True, self\<lparr>input_variables := AList.delete var_name (input_variables self)\<rparr>)
             else (removed, self));
          (removed, self) =
            (if has_key var_name (intermediate_variables self)
             then (True, self\<lparr>intermediate_variables :=
                                 AList.delete var_name (intermediate_variables self)\<rparr>)
             else (removed, self))
      in (removed, self))"

text \<open>
  \<open>add_calculation_node\<close> stores the function in the registry first and builds the
  node's attributes after that. Reading \<open>function.__name__\<close> and
  \<open>inspect.signature(function)\<close> can raise, and the exception then leaves the method
  with the function registered and no node added. The result is the outcome of the call
  and the state it leaves.
\<close>

definition add_calculation_node ::
  "PayrollVariableGraph \<Rightarrow> string \<Rightarrow> pyfunction \<Rightarrow> string \<Rightarrow> string option \<Rightarrow>
   string list option \<Rightarrow> string option \<Rightarrow> string \<Rightarrow> (error + unit) \<times> PayrollVariableGraph" where
  "add_calculation_node self node_id function description output_variable input_variables'
     legal_reference now =
     (let self1 = self\<lparr>function_registry := AList.update node_id function (function_registry self)\<rparr>
      in case fn_name function of
           None \<Rightarrow> (Inl (AttributeError ''__name__''), self1)
         | Some name \<Rightarrow>
            (case fn_signature function of
               None \<Rightarrow> (Inl NoSignature, self1)
             | Some sig \<Rightarrow>
                 let node_attrs =
                       \<lparr>n_description = description, n_function_name = name,
                        n_function_signature = sig_text sig, n_function_doc = fn_doc function,
                        n_output_variable = output_variable,
                        n_input_variables =
                          Some (case input_variables' of None \<Rightarrow> [] | Some vs \<Rightarrow> vs),
                        n_legal_reference = legal_reference, n_node_type = ''calculation'',
                        n_created_at = now\<rparr>
                 in (Inr (), self1\<lparr>graph := add_node (graph self1) node_id node_attrs\<rparr>)))"

text \<open>
  The dict \<open>edge_attrs\<close> that \<open>connect_calculations\<close> builds from its arguments. The
  further keyword arguments \<open>attrs\<close> are those that the two calls accept: names other
  than the parameters of \<open>connect_calculations\<close> and than the parameters \<open>u_of_edge\<close>
  and \<open>v_of_edge\<close> of \<open>add_edge\<close>, with which the call raises \<open>TypeError\<close> and leaves
  the graph as it was.
\<close>

definition edge_attrs_of :: "string option \<Rightarrow> edge_attrs \<Rightarrow> string \<Rightarrow> edge_attrs" where
  "edge_attrs_of variable_passed attrs now =
     dict_update
       [(''variable_passed'', case variable_passed of None \<Rightarrow> PNone | Some v \<Rightarrow> PStr v),
        (''created_at'', PStr now)]
       attrs"

definition connect_calculations ::
  "PayrollVariableGraph \<Rightarrow> string \<Rightarrow> string \<Rightarrow> string option \<Rightarrow> edge_attrs \<Rightarrow> string \<Rightarrow>
   error + PayrollVariableGraph" where
  "connect_calculations self from_node to_node variable_passed attrs now =
     (if \<not> has_node (graph self) from_node \<or> \<not> has_node (graph self) to_node
      then Inl EndpointsMustExist
      else let edge_attrs = edge_attrs_of variable_passed attrs now
           in Inr (self\<lparr>graph := add_edge (graph self) from_node to_node edge_attrs\<rparr>))"

text \<open>
  The values reach \<open>execute_calculation\<close> as keyword arguments
  (\<open>**variable_values\<close>), so a value named like one of the method's own parameters,
  \<open>self\<close> or \<open>node_id\<close>, makes the call itself raise \<open>TypeError\<close> before the body
  runs. In the body, the lookup of the node in the graph raises \<open>KeyError\<close> for a
  function that is registered without a node, the list comprehension raises
  \<open>TypeError\<close> over input variables that cannot be iterated, and
  \<open>inspect.signature\<close> raises for a function without a signature.
\<close>

definition execute_calculation ::
  "PayrollVariableGraph \<Rightarrow> string \<Rightarrow> (string, pyval) dict \<Rightarrow> error + pyval" where
  "execute_calculation self node_id variable_values =
     (if has_key ''self'' variable_values \<or> has_key ''node_id'' variable_values
      then Inl (TypeError ''got multiple values for argument'')
      else case map_of (function_registry self) node_id of
        None \<Rightarrow> Inl (UnknownNode node_id)
      | Some func \<Rightarrow>
         (case map_of (g_node (graph self)) node_id of
            None \<Rightarrow> Inl (KeyError node_id)
          | Some node_info \<Rightarrow>
             (case n_input_variables node_info of
                None \<Rightarrow> Inl (TypeError ''object is not iterable'')
              | Some required_vars \<Rightarrow>
                  let missing_vars = filter (\<lambda>var. \<not> has_key var variable_values) required_vars
                  in if missing_vars \<noteq> [] then Inl (MissingArguments node_id missing_vars)
                     else (case fn_signature func of
                             None \<Rightarrow> Inl NoSignature
                           | Some sig \<Rightarrow>
                               let filtered_args =
                                     filter (\<lambda>(k, v). k \<in> set (sig_parameters sig))
                                       variable_values
                               in fn_call func filtered_args))))"

definition remove_calculation_node ::
  "PayrollVariableGraph \<Rightarrow> string \<Rightarrow> bool \<times> PayrollVariableGraph" where
  "remove_calculation_node self node_id =
     (if \<not> has_node (graph self) node_id then (False, self)
      else let self1 = self\<lparr>graph := remove_node (graph self) node_id\<rparr>;
               self2 = (if has_key node_id (function_registry self1)
                        then self1\<lparr>function_registry :=
                                     AList.delete node_id (function_registry self1)\<rparr>
                        else self1)
           in (True, self2))"

definition remove_connection ::
  "PayrollVariableGraph \<Rightarrow> string \<Rightarrow> string \<Rightarrow> bool \<times> PayrollVariableGraph" where
  "remove_connection self from_node to_node =
     (if has_edge (graph self) from_node to_node
      then (True, self\<lparr>graph := remove_edge (graph self) from_node to_node\<rparr>)
      else (False, self))"

definition set_impact_source ::
  "PayrollVariableGraph \<Rightarrow> string \<Rightarrow> string option \<Rightarrow> string \<Rightarrow> PayrollVariableGraph" where
  "set_impact_source self impact_description source_convention now =
     self\<lparr>impact_source :=
            Some \<lparr>is_description = impact_description, is_convention = source_convention,
                  is_timestamp = now\<rparr>\<rparr>"

text \<open>
  \<open>update_variable\<close> and \<open>update_calculation_node\<close> assign the given values to the keys
  the entry already has and ignore the others; the assignments of one call together
  are the function \<open>updates\<close> on the entry. A name in both registries is updated in the
  input registry only.
\<close>

definition update_variable ::
  "PayrollVariableGraph \<Rightarrow> string \<Rightarrow> (variable_info \<Rightarrow> variable_info) \<Rightarrow>
   bool \<times> PayrollVariableGraph" where
  "update_variable self var_name updates =
     (case map_of (input_variables self) var_name of
        Some var_info \<Rightarrow>
          (True, self\<lparr>input_variables :=
                        AList.update var_name (updates var_info) (input_variables self)\<rparr>)
      | None \<Rightarrow>
         (case map_of (intermediate_variables self) var_name of
            Some var_info \<Rightarrow>
              (True, self\<lparr>intermediate_variables :=
                            AList.update var_name (updates var_info) (intermediate_variables self)\<rparr>)
          | None \<Rightarrow> (False, self)))"

definition update_calculation_node ::
  "PayrollVariableGraph \<Rightarrow> string \<Rightarrow> (node_attrs \<Rightarrow> node_attrs) \<Rightarrow>
   bool \<times> PayrollVariableGraph" where
  "update_calculation_node self node_id updates =
     (case map_of (g_node (graph self)) node_id of
        None \<Rightarrow> (False, self)
      | Some node_attrs \<Rightarrow>
          (True, self\<lparr>graph := (graph self)\<lparr>g_node :=
                     AList.update node_id (updates node_attrs) (g_node (graph self))\<rparr>\<rparr>))"

definition clear_system :: "PayrollVariableGraph \<Rightarrow> PayrollVariableGraph" where
  "clear_system self =
     self\<lparr>graph := DiGraph, function_registry := [], input_variables := [],
          intermediate_variables := [], impact_source := None\<rparr>"

text \<open>
  The states of the engine: the new engine and whatever a sequence of calls of its
  mutating methods makes of it. A call of \<open>connect_calculations\<close> that raises leaves the
  state as it was; a call of \<open>add_calculation_node\<close> that raises leaves the function in
  the registry.
\<close>

inductive reachable :: "PayrollVariableGraph \<Rightarrow> bool" where
  r_init: "reachable PayrollVariableGraph_init"
| r_set_impact_source: "reachable s \<Longrightarrow> reachable (set_impact_source s d c now)"
| r_add_variable: "reachable s \<Longrightarrow> reachable (add_variable s n t d dt lr cf deps now)"
| r_remove_variable: "reachable s \<Longrightarrow> reachable (snd (remove_variable s n))"
| r_update_variable: "reachable s \<Longrightarrow> reachable (snd (update_variable s n upd))"
| r_add_calculation_node:
    "reachable s \<Longrightarrow> reachable (snd (add_calculation_node s n f d ov ivs lr now))"
| r_connect_calculations:
    "reachable s \<Longrightarrow> connect_calculations s a b vp attrs now = Inr s' \<Longrightarrow> reachable s'"
| r_remove_calculation_node: "reachable s \<Longrightarrow> reachable (snd (remove_calculation_node s n))"
| r_update_calculation_node: "reachable s \<Longrightarrow> reachable (snd (update_calculation_node s n nupd))"
| r_remove_connection: "reachable s \<Longrightarrow> reachable (snd (remove_connection s a b))"
| r_clear_system: "reachable s \<Longrightarrow> reachable (clear_system s)"

text \<open>
  What the dicts of a graph guarantee: keys are unique, every node has its successor
  dict, and every successor is a node. The engine keeps a function for every node; a
  function without a node is left behind by a call of \<open>add_calculation_node\<close> that
  raised.
\<close>

definition wf_digraph :: "digraph \<Rightarrow> bool" where
  "wf_digraph g =
     (distinct (keys (g_node g)) \<and> keys (g_adj g) = keys (g_node g) \<and>
      list_all (\<lambda>(u, nbrs). distinct (keys nbrs) \<and> set (keys nbrs) \<subseteq> set (keys (g_node g)))
        (g_adj g))"

definition invariant :: "PayrollVariableGraph \<Rightarrow> bool" where
  "invariant s =
     (wf_digraph (graph s) \<and>
      distinct (keys (function_registry s)) \<and>
      set (keys (g_node (graph s))) \<subseteq> set (keys (function_registry s)) \<and>
      distinct (keys (input_variables s)) \<and>
      distinct (keys (intermediate_variables s)))"

text \<open>The registry in which \<open>add_variable\<close> stores a variable of the given type.\<close>

definition registry_for :: "string \<Rightarrow> PayrollVariableGraph \<Rightarrow> (string, variable_info) dict" where
  "registry_for var_type self =
     (if var_type = ''input'' then input_variables self else intermediate_variables self)"

definition other_registry :: "string \<Rightarrow> PayrollVariableGraph \<Rightarrow> (string, variable_info) dict" where
  "other_registry var_type self =
     (if var_type = ''input'' then intermediate_variables self else input_variables self)"

text \<open>
  Part 4D of \<open>to_llm_readable_text\<close>, reached when the graph has a node: the lines the
  dependency analysis adds to the text, or the exception that leaves the method.
\<close>

datatype analysis_line =
    ExecutionOrder "string list"
  | EntryPoints "string list"
  | ExitPoints "string list"
  | AnalysisError string

definition dependency_analysis :: "PayrollVariableGraph \<Rightarrow> exception + analysis_line list" where
  "dependency_analysis self =
     (case topological_sort (graph self) of
        Inr topo_order \<Rightarrow>
          (let entry_points = filter (\<lambda>n. in_degree (graph self) n = 0) (nodes (graph self));
               exit_points = filter (\<lambda>n. out_degree (graph self) n = 0) (nodes (graph self))
           in Inr [ExecutionOrder topo_order, EntryPoints entry_points, ExitPoints exit_points])
      | Inl e \<Rightarrow>
          if isinstance_NetworkXError e then Inr [AnalysisError (str_exception e)]
          else Inl e)"

text \<open>
  \<open>_generate_flowchart\<close> sorts the same graph under a bare \<open>except\<close>: whatever the
  sort raises, the levels are the positions in the order of the nodes.
\<close>

definition flowchart_levels :: "PayrollVariableGraph \<Rightarrow> (string \<times> nat) list" where
  "flowchart_levels self =
     (case topological_sort (graph self) of
        Inr topo_order \<Rightarrow> zip topo_order [0..<length topo_order]
      | Inl e \<Rightarrow> zip (nodes (graph self)) [0..<length (nodes (graph self))])"


section \<open>Delivery to a fixed list of subscribers\<close>



section \<open>Orders and cycles\<close>

text \<open>The edges of a graph as a relation: \<open>v\<close> is a successor of \<open>u\<close>.\<close>

definition edge_rel :: "digraph \<Rightarrow> (string \<times> string) set" where
  "edge_rel g = {(u, v). v \<in> set (neighbors g u)}"

text \<open>
  The count table of the sort agrees with a set \<open>U\<close> of edges not yet gone through: it
  holds exactly the nodes that an edge of \<open>U\<close> points to, each with the number of such
  edges.
\<close>

definition counts :: "(string \<times> string) set \<Rightarrow> (string, int) dict \<Rightarrow> bool" where
  "counts U im =
     (finite U \<and> distinct (keys im) \<and>
      (\<forall>v. map_of im v =
             (if \<exists>u. (u, v) \<in> U then Some (int (card {u. (u, v) \<in> U})) else None)))"

text \<open>
  The state of the sort between two generations, \<open>D\<close> being the nodes already
  yielded: the counts are those of the edges that leave a node outside \<open>D\<close>, and the
  nodes outside \<open>D\<close> are the current generation and the counted nodes.
\<close>

definition kahn_inv ::
  "digraph \<Rightarrow> string set \<Rightarrow> string list \<Rightarrow> (string, int) dict \<Rightarrow> bool" where
  "kahn_inv g D z im =
     (counts {(u, v). (u, v) \<in> edge_rel g \<and> u \<notin> D} im \<and> distinct z \<and>
      set z \<inter> set (keys im) = {} \<and> D \<subseteq> set (nodes g) \<and>
      set z \<union> set (keys im) = set (nodes g) - D)"

text \<open>
  In \<open>order\<close>, every node comes after all its predecessors, those in \<open>D\<close> apart.
\<close>

definition edges_forward :: "digraph \<Rightarrow> string set \<Rightarrow> string list \<Rightarrow> bool" where
  "edges_forward g D order =
     (\<forall>i < length order. \<forall>u. (u, order ! i) \<in> edge_rel g \<longrightarrow> u \<in> D \<union> set (take i order))"

text \<open>A non-empty set of nodes each of which has a predecessor in the set.\<close>

definition cyclic_core :: "digraph \<Rightarrow> string set \<Rightarrow> bool" where
  "cyclic_core g S = (S \<noteq> {} \<and> S \<subseteq> set (nodes g) \<and> (\<forall>v \<in> S. \<exists>u \<in> S. (u, v) \<in> edge_rel g))"

text \<open>The first place of an element in a list.\<close>

fun position :: "'a \<Rightarrow> 'a list \<Rightarrow> nat" where
  "position x [] = 0"
| "position x (y # ys) = (if x = y then 0 else Suc (position x ys))"


section \<open>Sample data\<close>

text \<open>An event whose message tells it apart from the others.\<close>

definition ev0 :: "nat \<Rightarrow> event" where
  "ev0 i = \<lparr>ev_session_id = ''s'', ev_type = ''agent_action'', ev_agent_type = None,
            ev_action = None, ev_message = replicate i CHR ''x'', ev_level = ''info'',
            ev_timestamp = [], ev_data = []\<rparr>"


definition sample_event :: "string \<Rightarrow> string \<Rightarrow> event" where
  "sample_event sid msg =
     \<lparr>ev_session_id = sid, ev_type = ''agent_action'', ev_agent_type = Some ''agent'',
      ev_action = Some ''step'', ev_message = msg, ev_level = ''info'',
      ev_timestamp = ''2025-01-01T00:00:00'', ev_data = []\<rparr>"

definition sample_monitor :: "nat list monitor" where
  "sample_monitor =
     \<lparr>events = [sample_event ''S'' ''one'', sample_event ''T'' ''two'',
                sample_event ''S'' ''three''],
      subscribers = [], active_sessions = []\<rparr>"









text \<open>A monitor on which the session \<open>s1\<close> has been started.\<close>

definition started_monitor :: "nat list monitor" where
  "started_monitor =
     fst (snd (start_session AgentMonitor_init ''s1'' ''demo'' None 10 11 ''t0''
                 \<lparr>world = [], error_log = []\<rparr>))"


text \<open>An engine with the single input variable \<open>x\<close>.\<close>

definition one_input :: PayrollVariableGraph where
  "one_input =
     add_variable PayrollVariableGraph_init ''x'' ''input'' ''first'' ''float'' None None None ''t1''"


text \<open>\<open>def f(x): return x\<close>: the call binds exactly the keyword \<open>x\<close>.\<close>

definition take_x :: pyfunction where
  "take_x =
     \<lparr>fn_name = Some ''f'',
      fn_signature = Some \<lparr>sig_text = ''(x)'', sig_parameters = [''x'']\<rparr>, fn_doc = [],
      fn_call = (\<lambda>kwargs. case kwargs of
                   [(k, v)] \<Rightarrow> if k = ''x'' then Inr v
                               else Inl (ExecutionFailure ''TypeError'')
                 | _ \<Rightarrow> Inl (ExecutionFailure ''TypeError''))\<rparr>"

text \<open>
  A callable without a \<open>__name__\<close>, as \<open>functools.partial(f, 1)\<close> is, and the engine
  after the attempt to add a node \<open>p\<close> with it.
\<close>

definition no_name :: pyfunction where
  "no_name =
     \<lparr>fn_name = None, fn_signature = Some \<lparr>sig_text = ''()'', sig_parameters = []\<rparr>,
      fn_doc = [], fn_call = (\<lambda>kwargs. Inr (PInt 1))\<rparr>"

definition half_registered :: PayrollVariableGraph where
  "half_registered =
     snd (add_calculation_node PayrollVariableGraph_init ''p'' no_name ''partial'' None None None
            ''t0'')"

text \<open>Two nodes: \<open>a\<close> declares the input \<open>x\<close>, \<open>b\<close> the inputs \<open>x\<close> and \<open>z\<close>.\<close>

definition two_nodes :: PayrollVariableGraph where
  "two_nodes =
     snd (add_calculation_node
       (snd (add_calculation_node PayrollVariableGraph_init ''a'' take_x ''first'' None
          (Some [''x'']) None ''t1''))
       ''b'' take_x ''second'' None (Some [''x'', ''z'']) None ''t2'')"


text \<open>The two nodes with the connection from \<open>a\<close> to \<open>b\<close>.\<close>

definition connected_nodes :: PayrollVariableGraph where
  "connected_nodes =
     two_nodes\<lparr>graph := add_edge (graph two_nodes) ''a'' ''b'' (edge_attrs_of (Some ''x'') [] ''t3'')\<rparr>"


text \<open>Three nodes \<open>A\<close>, \<open>B\<close>, \<open>C\<close>, connected in a chain and then into a cycle.\<close>

definition three_nodes :: PayrollVariableGraph where
  "three_nodes =
     snd (add_calculation_node
       (snd (add_calculation_node
          (snd (add_calculation_node PayrollVariableGraph_init ''A'' take_x ''first'' None None None
                  ''t1''))
          ''B'' take_x ''second'' None None None ''t2''))
       ''C'' take_x ''third'' None None None ''t3'')"

definition chain_ab :: PayrollVariableGraph where
  "chain_ab = three_nodes\<lparr>graph := add_edge (graph three_nodes) ''A'' ''B'' (edge_attrs_of None [] ''t4'')\<rparr>"

definition chain_abc :: PayrollVariableGraph where
  "chain_abc = chain_ab\<lparr>graph := add_edge (graph chain_ab) ''B'' ''C'' (edge_attrs_of None [] ''t5'')\<rparr>"

definition cycle_abc :: PayrollVariableGraph where
  "cycle_abc = chain_abc\<lparr>graph := add_edge (graph chain_abc) ''C'' ''A'' (edge_attrs_of None [] ''t6'')\<rparr>"


section \<open>The bounded event log\<close>

lemma deque_append_drop:
  "length xs \<le> n \<Longrightarrow> deque_append n xs x = drop (Suc (length xs) - n) (xs @ [x])"
proof (cases "length xs = n")
  case True
  then have "Suc (length xs) - n = Suc 0" by simp
  moreover have "drop (Suc 0) (xs @ [x]) = tl (xs @ [x])" by (simp only: drop_Suc drop_0)
  ultimately show ?thesis using True by (simp add: deque_append_def del: drop_append)
next
  case False
  assume "length xs \<le> n"
  with False show ?thesis by (simp add: deque_append_def)
qed

lemma drop_append_le: "k \<le> length ys \<Longrightarrow> drop k ys @ es = drop k (ys @ es)"
  by simp

lemma deque_append_length: "length xs \<le> n \<Longrightarrow> length (deque_append n xs x) \<le> n"
  by (auto simp: deque_append_def Let_def)

lemma foldl_deque_append:
  "length xs \<le> n \<Longrightarrow>
   foldl (deque_append n) xs es = drop (length (xs @ es) - n) (xs @ es)"
proof (induction es arbitrary: xs)
  case Nil
  then show ?case by simp
next
  case (Cons e es)
  define k where "k = Suc (length xs) - n"
  define dq where "dq = deque_append n xs e"
  have dq: "dq = drop k (xs @ [e])"
    using Cons.prems by (simp only: dq_def k_def deque_append_drop)
  have k: "k \<le> Suc (length xs)" by (simp add: k_def)
  have len: "length dq \<le> n"
    using Cons.prems by (simp add: dq_def deque_append_length)
  have "k \<le> length (xs @ [e])" using k by simp
  then have "drop k (xs @ [e]) @ es = drop k ((xs @ [e]) @ es)"
    by (rule drop_append_le)
  then have "dq @ es = drop k ((xs @ [e]) @ es)"
    by (simp only: dq)
  then have app: "dq @ es = drop k (xs @ e # es)" by simp
  have "foldl (deque_append n) (xs) (e # es) = foldl (deque_append n) dq es"
    by (simp add: dq_def)
  also have "\<dots> = drop (length (dq @ es) - n) (dq @ es)"
    using Cons.IH [OF len] .
  also have "\<dots> = drop (length (dq @ es) - n + k) (xs @ e # es)"
    by (simp only: app drop_drop)
  also have "length (dq @ es) - n + k = length (xs @ e # es) - n"
    using Cons.prems by (auto simp: app k_def)
  finally show ?case .
qed

lemma add_event_events:
  "events (fst (snd (add_event m e out))) = deque_append MAXLEN (events m) e"
  by (simp add: add_event_def Let_def split: prod.splits)

lemma add_event_sessions:
  "active_sessions (fst (snd (add_event m e out))) = active_sessions m"
  by (simp add: add_event_def Let_def split: prod.splits)

lemma add_events_events:
  "events (fst (add_events m es out)) = foldl (deque_append MAXLEN) (events m) es"
proof (induction es arbitrary: m out)
  case Nil
  then show ?case by simp
next
  case (Cons e es)
  obtain r m' out' where a: "add_event m e out = (r, m', out')"
    by (cases "add_event m e out") auto
  have "events m' = deque_append MAXLEN (events m) e"
    using add_event_events [of m e out] a by simp
  with Cons.IH [of m' out'] a show ?case by simp
qed

text \<open>
  C2. Whatever events are appended one after the other to a log that is within the
  capacity (the new monitor's log is empty), the log never holds more than 1000 events
  and holds the most recent ones in the order of their appending: it is the sequence of
  everything appended with its oldest part cut off. After 1500 appends to the empty
  log these are the last 1000 of them.
\<close>

theorem event_log_bounded_fifo:
  "length (events m) \<le> MAXLEN \<Longrightarrow>
   MAXLEN = 1000 \<and>
   length (events (fst (add_events m es out))) \<le> 1000 \<and>
   events (fst (add_events m es out)) = drop (length (events m @ es) - 1000) (events m @ es) \<and>
   (events m = [] \<and> length es = 1500 \<longrightarrow> events (fst (add_events m es out)) = drop 500 es)"
  using foldl_deque_append [of "events m" MAXLEN es]
  by (auto simp: MAXLEN_def add_events_events)

theorem event_log_bounded_fifo_witness:
  "length (events (AgentMonitor_init :: unit monitor)) \<le> MAXLEN \<and>
   length (map ev0 [0..<1500]) = 1500 \<and>
   events (fst (add_events (AgentMonitor_init :: unit monitor) (map ev0 [0..<1500])
                  \<lparr>world = (), error_log = []\<rparr>))
     = map ev0 [500..<1500]"
proof -
  have h: "length (events (AgentMonitor_init :: unit monitor)) \<le> MAXLEN"
    by (simp add: AgentMonitor_init_def)
  have e: "events (AgentMonitor_init :: unit monitor) = []"
    by (simp add: AgentMonitor_init_def)
  have l: "length (map ev0 [0..<1500]) = 1500"
    by (simp only: length_map length_upt diff_zero)
  have d: "drop 500 (map ev0 [0..<1500]) = map ev0 [500..<1500]"
    by (simp only: drop_map drop_upt add_0)
  from event_log_bounded_fifo [OF h, of "map ev0 [0..<1500]" "\<lparr>world = (), error_log = []\<rparr>"]
  have "events (fst (add_events (AgentMonitor_init :: unit monitor) (map ev0 [0..<1500])
                  \<lparr>world = (), error_log = []\<rparr>)) = drop 500 (map ev0 [0..<1500])"
    using e l by blast
  with h l d show ?thesis by (simp only:) 
qed


section \<open>Reading the log\<close>

lemma slice_from_last:
  "0 < limit \<Longrightarrow> slice_from (- limit) xs = drop (length xs - nat limit) xs"
proof -
  assume "0 < limit"
  then have "nat (int (length xs) + - limit) = length xs - nat limit" by linarith
  with \<open>0 < limit\<close> show ?thesis by (simp add: slice_from_def)
qed

text \<open>
  C7, as stated, fails in two places. With the limit 0 the slice \<open>events[-0:]\<close> is the
  whole list, so more than \<open>limit\<close> events come back; and an empty session identifier
  is falsy, so the guard \<open>if session_id:\<close> skips the filter and events of other
  sessions come back.
\<close>

theorem get_recent_events_counterexample:
  "\<not> int (length (get_recent_events sample_monitor 0 (Some ''S'') None)) \<le> 0 \<and>
   ev_session_id (hd (get_recent_events sample_monitor 5 (Some []) None)) \<noteq> []"
  by (simp add: get_recent_events_def sample_monitor_def slice_from_def sample_event_def)

text \<open>
  C7, amended. For every log, every limit of at least 1 and every non-empty session
  identifier \<open>S\<close> (with or without a level filter), \<open>get_recent_events\<close> returns only
  events of session \<open>S\<close>, at most \<open>limit\<close> of them, in the order of the log (most
  recent last): they are the last \<open>limit\<close> of the events that pass the filters.
\<close>

theorem get_recent_events_session_filter:
  assumes "0 < limit" and "S \<noteq> []"
  shows "let matches = filter (\<lambda>e. ev_session_id e = S \<and> (truthy level \<longrightarrow> Some (ev_level e) = level))
                         (events m);
             r = get_recent_events m limit (Some S) level
         in (\<forall>e \<in> set r. ev_session_id e = S) \<and> int (length r) \<le> limit \<and>
            r = drop (length matches - nat limit) matches \<and> subseq r (events m)"
proof -
  define matches where
    "matches = filter (\<lambda>e. ev_session_id e = S \<and> (truthy level \<longrightarrow> Some (ev_level e) = level)) (events m)"
  define r where "r = get_recent_events m limit (Some S) level"
  have f: "(if truthy level
            then filter (\<lambda>e. Some (ev_level e) = level)
                   (filter (\<lambda>e. ev_session_id e = S) (events m))
            else filter (\<lambda>e. ev_session_id e = S) (events m)) = matches"
    by (cases "truthy level") (simp_all add: matches_def conj_commute)
  have "r = slice_from (- limit) matches"
    using assms(2) f by (simp add: r_def get_recent_events_def Let_def)
  then have r: "r = drop (length matches - nat limit) matches"
    using assms(1) by (simp add: slice_from_last)
  have "set r \<subseteq> set matches" unfolding r by (rule set_drop_subset)
  then have tagged: "\<forall>e \<in> set r. ev_session_id e = S" by (auto simp: matches_def)
  have len: "int (length r) \<le> limit" using assms(1) unfolding r by simp
  have "suffix r matches" unfolding r by (rule suffix_drop)
  then have "subseq r matches" by (rule suffix_imp_subseq)
  moreover have "subseq matches (events m)" unfolding matches_def by (rule subseq_filter_left)
  ultimately have sub: "subseq r (events m)" by (rule subseq_order.trans)
  from r tagged len sub show ?thesis
    unfolding Let_def r_def [symmetric] matches_def [symmetric] by blast
qed

theorem get_recent_events_session_filter_witness:
  "(0::int) < 1 \<and> ''S'' \<noteq> [] \<and>
   get_recent_events sample_monitor 1 (Some ''S'') None = [sample_event ''S'' ''three'']"
  using get_recent_events_session_filter [of 1 "''S''" None sample_monitor]
  by (simp add: Let_def sample_monitor_def sample_event_def)


section \<open>Subscribers and sessions\<close>

lemma notify_Nil [simp]: "notify i [] e out = (Inr (), [], out)"
  by (simp add: notify.simps)







text \<open>
  C9. A call of \<open>log_agent_action\<close> appends exactly one event, built from its
  arguments, to the bounded log (below the capacity the log grows by this event; at the
  capacity the oldest event makes room for it). When the session identifier is a key of
  the session map, that session's \<open>events_count\<close> goes up by one and its
  \<open>last_activity\<close> is the new clock reading, the other sessions staying as they are;
  for an unknown identifier the session map is unchanged.
\<close>

theorem log_agent_action_effect:
  "(let event = \<lparr>ev_session_id = sid, ev_type = ''agent_action'', ev_agent_type = Some agent,
                  ev_action = Some action, ev_message = msg, ev_level = level,
                  ev_timestamp = now_iso, ev_data = (case data of None \<Rightarrow> [] | Some d \<Rightarrow> d)\<rparr>;
        m' = fst (snd (log_agent_action m sid agent action msg level data now_iso now out))
    in events m' = deque_append MAXLEN (events m) event \<and>
       (length (events m) < MAXLEN \<longrightarrow> events m' = events m @ [event]) \<and>
       (length (events m) = MAXLEN \<longrightarrow> events m' = tl (events m) @ [event]) \<and>
       (case map_of (active_sessions m) sid of
          None \<Rightarrow> active_sessions m' = active_sessions m
        | Some s \<Rightarrow>
            map_of (active_sessions m') sid =
              Some (s\<lparr>s_events_count := s_events_count s + 1, s_last_activity := now\<rparr>) \<and>
            keys (active_sessions m') = keys (active_sessions m) \<and>
            (\<forall>k. k \<noteq> sid \<longrightarrow> map_of (active_sessions m') k = map_of (active_sessions m) k)))"
proof -
  define event where
    "event = \<lparr>ev_session_id = sid, ev_type = ''agent_action'', ev_agent_type = Some agent,
              ev_action = Some action, ev_message = msg, ev_level = level,
              ev_timestamp = now_iso, ev_data = (case data of None \<Rightarrow> [] | Some d \<Rightarrow> d)\<rparr>"
  define m1 where
    "m1 = (case map_of (active_sessions m) sid of
             None \<Rightarrow> m
           | Some s \<Rightarrow>
               m\<lparr>active_sessions :=
                    AList.update sid (s\<lparr>s_events_count := s_events_count s + 1,
                                        s_last_activity := now\<rparr>) (active_sessions m)\<rparr>)"
  define m' where "m' = fst (snd (log_agent_action m sid agent action msg level data now_iso now out))"
  have l: "log_agent_action m sid agent action msg level data now_iso now out = add_event m1 event out"
    by (simp add: log_agent_action_def event_def m1_def Let_def)
  have ev1: "events m1 = events m" by (simp add: m1_def split: option.splits)
  have ev: "events m' = deque_append MAXLEN (events m) event"
    unfolding m'_def l by (simp add: add_event_events ev1)
  have se: "active_sessions m' = active_sessions m1"
    unfolding m'_def l by (simp add: add_event_sessions)
  have a: "length (events m) < MAXLEN \<longrightarrow> events m' = events m @ [event]"
    by (simp add: ev deque_append_def)
  have b: "length (events m) = MAXLEN \<longrightarrow> events m' = tl (events m) @ [event]"
    by (cases "events m") (auto simp: ev deque_append_def MAXLEN_def)
  have c: "(case map_of (active_sessions m) sid of
          None \<Rightarrow> active_sessions m' = active_sessions m
        | Some s \<Rightarrow>
            map_of (active_sessions m') sid =
              Some (s\<lparr>s_events_count := s_events_count s + 1, s_last_activity := now\<rparr>) \<and>
            keys (active_sessions m') = keys (active_sessions m) \<and>
            (\<forall>k. k \<noteq> sid \<longrightarrow> map_of (active_sessions m') k = map_of (active_sessions m) k))"
  proof (cases "map_of (active_sessions m) sid")
    case None
    then show ?thesis by (simp add: se m1_def)
  next
    case (Some s)
    then have "sid \<in> fst ` set (active_sessions m)" by (metis domI dom_map_of_conv_image_fst)
    then have "map fst (AList.update sid (s\<lparr>s_events_count := s_events_count s + 1,
                  s_last_activity := now\<rparr>) (active_sessions m)) = map fst (active_sessions m)"
      by (simp add: AList.update_keys)
    with Some show ?thesis by (simp add: se m1_def keys_def AList.update_conv')
  qed
  from ev a b c show ?thesis
    unfolding Let_def event_def [symmetric] m'_def [symmetric] by blast
qed


theorem log_agent_action_effect_witness:
  "map_of (active_sessions started_monitor) ''s1'' =
     Some \<lparr>s_id = ''s1'', s_description = ''demo'', s_user_id = None, s_started_at = 10,
           s_status = ''active'', s_events_count = 0, s_last_activity = 11, s_ended_at = None\<rparr> \<and>
   length (events started_monitor) < MAXLEN \<and>
   map_of (active_sessions (fst (snd (log_agent_action started_monitor ''s1'' ''agent''
             ''step'' ''hello'' ''info'' None ''t1'' 42 \<lparr>world = [], error_log = []\<rparr>)))) ''s1'' =
     Some \<lparr>s_id = ''s1'', s_description = ''demo'', s_user_id = None, s_started_at = 10,
           s_status = ''active'', s_events_count = 1, s_last_activity = 42, s_ended_at = None\<rparr> \<and>
   length (events (fst (snd (log_agent_action started_monitor ''s1'' ''agent''
             ''step'' ''hello'' ''info'' None ''t1'' 42 \<lparr>world = [], error_log = []\<rparr>)))) = 2 \<and>
   map_of (active_sessions started_monitor) ''zz'' = None \<and>
   active_sessions (fst (snd (log_agent_action started_monitor ''zz'' ''agent''
             ''step'' ''hello'' ''info'' None ''t1'' 42 \<lparr>world = [], error_log = []\<rparr>))) =
     active_sessions started_monitor"
proof -
  have s: "active_sessions started_monitor =
     [(''s1'', \<lparr>s_id = ''s1'', s_description = ''demo'', s_user_id = None, s_started_at = 10,
           s_status = ''active'', s_events_count = 0, s_last_activity = 11, s_ended_at = None\<rparr>)]"
    by (simp add: started_monitor_def start_session_def add_event_sessions AgentMonitor_init_def)
  have e: "length (events started_monitor) = 1"
    by (simp add: started_monitor_def start_session_def add_event_events AgentMonitor_init_def
        deque_append_def MAXLEN_def)
  from log_agent_action_effect [where sid = "''s1''" and agent = "''agent''" and
      action = "''step''" and msg = "''hello''" and level = "''info''" and data = None and
      now_iso = "''t1''" and m = started_monitor and now = 42 and
      out = "\<lparr>world = [], error_log = []\<rparr>"]
    log_agent_action_effect [where sid = "''zz''" and agent = "''agent''" and
      action = "''step''" and msg = "''hello''" and level = "''info''" and data = None and
      now_iso = "''t1''" and m = started_monitor and now = 42 and
      out = "\<lparr>world = [], error_log = []\<rparr>"]
  show ?thesis
    by (simp add: s e Let_def MAXLEN_def deque_append_def)
qed


section \<open>Invariants of the engine\<close>

lemma keys_update:
  "keys (AList.update k v al) = (if k \<in> set (keys al) then keys al else keys al @ [k])"
  by (simp add: keys_def AList.update_keys)

lemma keys_delete: "keys (AList.delete k al) = removeAll k (keys al)"
  by (simp add: keys_def AList.delete_keys)

lemma map_of_keys: "(map_of al k = None) = (k \<notin> set (keys al))"
  by (simp add: keys_def map_of_eq_None_iff)

lemma wf_DiGraph: "wf_digraph DiGraph"
  by (simp add: wf_digraph_def DiGraph_def keys_def)

lemma list_all_update:
  "list_all P al \<Longrightarrow> P (k, v) \<Longrightarrow> list_all P (AList.update k v al)"
  by (induction al) auto

lemma list_all_delete: "list_all P al \<Longrightarrow> list_all P (AList.delete k al)"
  by (induction al) auto

lemma list_all_map_mono:
  "list_all P xs \<Longrightarrow> (\<And>x. x \<in> set xs \<Longrightarrow> P x \<Longrightarrow> Q (f x)) \<Longrightarrow> list_all Q (map f xs)"
  by (induction xs) auto

lemma wf_add_node: "wf_digraph g \<Longrightarrow> wf_digraph (add_node g n attr)"
proof -
  assume wf: "wf_digraph g"
  show ?thesis
  proof (cases "has_key n (g_node g)")
    case True
    with wf show ?thesis
      by (simp add: wf_digraph_def add_node_def has_key_def keys_update)
  next
    case False
    from wf have "list_all (\<lambda>(u, nbrs). distinct (keys nbrs) \<and>
        set (keys nbrs) \<subseteq> set (keys (g_node g) @ [n])) (g_adj g)"
      by (auto simp: wf_digraph_def list_all_iff)
    then have "list_all (\<lambda>(u, nbrs). distinct (keys nbrs) \<and>
        set (keys nbrs) \<subseteq> set (keys (g_node g) @ [n])) (AList.update n [] (g_adj g))"
      by (rule list_all_update) (simp add: keys_def)
    with wf False show ?thesis
      by (simp add: wf_digraph_def add_node_def has_key_def keys_update)
  qed
qed

lemma map_of_list_all: "list_all P al \<Longrightarrow> map_of al k = Some v \<Longrightarrow> P (k, v)"
  by (induction al) (auto split: if_splits)

lemma wf_add_edge:
  assumes "wf_digraph g" and "has_node g u" and "has_node g v"
  shows "wf_digraph (add_edge g u v attr)"
proof -
  from assms(1,2) obtain nbrs where nb: "map_of (g_adj g) u = Some nbrs"
    by (cases "map_of (g_adj g) u") (auto simp: wf_digraph_def has_node_def has_key_def map_of_keys)
  define d where "d = dict_update (case map_of nbrs v of None \<Rightarrow> [] | Some d \<Rightarrow> d) attr"
  have g': "add_edge g u v attr = g\<lparr>g_adj := AList.update u (AList.update v d nbrs) (g_adj g)\<rparr>"
    by (simp add: add_edge_def nb d_def)
  let ?P = "\<lambda>(u, nbrs). distinct (keys nbrs) \<and> set (keys nbrs) \<subseteq> set (keys (g_node g))"
  from assms(1) have all: "list_all ?P (g_adj g)" by (simp add: wf_digraph_def)
  from map_of_list_all [OF all nb] have "?P (u, nbrs)" .
  with assms(3) have "?P (u, AList.update v d nbrs)"
    by (auto simp: keys_update has_node_def has_key_def)
  with all have "list_all ?P (AList.update u (AList.update v d nbrs) (g_adj g))"
    by (rule list_all_update)
  moreover from nb have "u \<in> set (keys (g_adj g))"
    using map_of_keys [of "g_adj g" u] by simp
  ultimately show ?thesis using assms(1)
    by (simp add: g' wf_digraph_def keys_update)
qed

lemma wf_remove_node: "wf_digraph g \<Longrightarrow> wf_digraph (remove_node g n)"
proof -
  assume wf: "wf_digraph g"
  let ?P = "\<lambda>(u, nbrs). distinct (keys nbrs) \<and> set (keys nbrs) \<subseteq> set (keys (g_node g))"
  let ?Q = "\<lambda>(u, nbrs). distinct (keys nbrs) \<and>
              set (keys nbrs) \<subseteq> set (keys (AList.delete n (g_node g)))"
  from wf have "list_all ?P (AList.delete n (g_adj g))"
    by (simp add: wf_digraph_def list_all_delete)
  then have "list_all ?Q (map (\<lambda>(u, nbrs). (u, AList.delete n nbrs)) (AList.delete n (g_adj g)))"
    by (rule list_all_map_mono) (auto simp: keys_delete distinct_removeAll)
  moreover have "keys (map (\<lambda>(u, nbrs). (u, AList.delete n nbrs)) (AList.delete n (g_adj g)))
                 = keys (AList.delete n (g_adj g))"
    by (simp add: keys_def split_def comp_def)
  ultimately show ?thesis using wf
    by (simp add: wf_digraph_def remove_node_def keys_delete distinct_removeAll)
qed

lemma wf_remove_edge: "wf_digraph g \<Longrightarrow> wf_digraph (remove_edge g u v)"
proof -
  assume wf: "wf_digraph g"
  have "keys (map (\<lambda>(a, nbrs). (a, if a = u then AList.delete v nbrs else nbrs)) (g_adj g))
        = keys (g_adj g)"
    by (simp add: keys_def split_def comp_def)
  moreover from wf have "list_all (\<lambda>(u, nbrs). distinct (keys nbrs) \<and>
         set (keys nbrs) \<subseteq> set (keys (g_node g))) (g_adj g)"
    by (simp add: wf_digraph_def)
  then have "list_all (\<lambda>(u, nbrs). distinct (keys nbrs) \<and>
         set (keys nbrs) \<subseteq> set (keys (g_node g)))
      (map (\<lambda>(a, nbrs). (a, if a = u then AList.delete v nbrs else nbrs)) (g_adj g))"
    by (rule list_all_map_mono) (auto simp: keys_delete distinct_removeAll split: if_splits)
  ultimately show ?thesis using wf by (simp add: wf_digraph_def remove_edge_def)
qed

lemma wf_update_attrs:
  "wf_digraph g \<Longrightarrow> map_of (g_node g) n = Some a \<Longrightarrow>
   wf_digraph (g\<lparr>g_node := AList.update n a' (g_node g)\<rparr>)"
proof -
  assume wf: "wf_digraph g" and "map_of (g_node g) n = Some a"
  then have "n \<in> set (keys (g_node g))" using map_of_keys [of "g_node g" n] by simp
  with wf show ?thesis by (simp add: wf_digraph_def keys_update)
qed

lemma invariant_init: "invariant PayrollVariableGraph_init"
  by (simp add: invariant_def PayrollVariableGraph_init_def wf_DiGraph)
     (simp add: keys_def DiGraph_def)

lemma nodes_add_node: "set (keys (g_node (add_node g n a))) = insert n (set (keys (g_node g)))"
  by (auto simp: add_node_def keys_update)

lemma g_node_add_edge: "g_node (add_edge g u v a) = g_node g"
  by (simp add: add_edge_def Let_def)

lemma g_node_remove_node: "g_node (remove_node g n) = AList.delete n (g_node g)"
  by (simp add: remove_node_def)

lemma g_node_remove_edge: "g_node (remove_edge g u v) = g_node g"
  by (simp add: remove_edge_def)

lemma add_calculation_node_state:
  "snd (add_calculation_node s n f d ov ivs lr now) =
     s\<lparr>function_registry := AList.update n f (function_registry s)\<rparr> \<or>
   (\<exists>attrs. snd (add_calculation_node s n f d ov ivs lr now) =
      s\<lparr>function_registry := AList.update n f (function_registry s),
        graph := add_node (graph s) n attrs\<rparr>)"
  by (auto simp: add_calculation_node_def Let_def split: option.splits)

lemma reachable_invariant: "reachable s \<Longrightarrow> invariant s"
proof (induction rule: reachable.induct)
  case r_init
  show ?case by (rule invariant_init)
next
  case (r_set_impact_source s d c now)
  then show ?case by (simp add: invariant_def set_impact_source_def)
next
  case (r_add_variable s n t d dt lr cf deps now)
  then show ?case by (simp add: invariant_def add_variable_def Let_def keys_update)
next
  case (r_remove_variable s n)
  then show ?case
    by (simp add: invariant_def remove_variable_def Let_def keys_delete distinct_removeAll)
next
  case (r_update_variable s n upd)
  then show ?case
    by (auto simp: invariant_def update_variable_def keys_update split: option.splits)
next
  case (r_add_calculation_node s n f d ov ivs lr now)
  from add_calculation_node_state [of s n f d ov ivs lr now] show ?case
  proof
    assume "snd (add_calculation_node s n f d ov ivs lr now) =
              s\<lparr>function_registry := AList.update n f (function_registry s)\<rparr>"
    with r_add_calculation_node.IH show ?thesis
      by (auto simp: invariant_def keys_update)
  next
    assume "\<exists>attrs. snd (add_calculation_node s n f d ov ivs lr now) =
              s\<lparr>function_registry := AList.update n f (function_registry s),
                graph := add_node (graph s) n attrs\<rparr>"
    then obtain attrs where "snd (add_calculation_node s n f d ov ivs lr now) =
              s\<lparr>function_registry := AList.update n f (function_registry s),
                graph := add_node (graph s) n attrs\<rparr>"
      by blast
    with r_add_calculation_node.IH show ?thesis
      by (auto simp: invariant_def wf_add_node nodes_add_node keys_update)
  qed
next
  case (r_connect_calculations s a b vp attrs now s')
  from r_connect_calculations.hyps(2) obtain e where
    "has_node (graph s) a" "has_node (graph s) b" "s' = s\<lparr>graph := add_edge (graph s) a b e\<rparr>"
    by (auto simp: connect_calculations_def Let_def split: if_splits)
  with r_connect_calculations.IH show ?case
    by (simp add: invariant_def wf_add_edge g_node_add_edge)
next
  case (r_remove_calculation_node s n)
  then show ?case
    by (auto simp: invariant_def remove_calculation_node_def Let_def wf_remove_node
        keys_delete distinct_removeAll g_node_remove_node has_key_def has_node_def)
next
  case (r_update_calculation_node s n nupd)
  show ?case
  proof (cases "map_of (g_node (graph s)) n")
    case None
    with r_update_calculation_node.IH show ?thesis by (simp add: update_calculation_node_def)
  next
    case (Some a)
    then have "n \<in> set (keys (g_node (graph s)))"
      using map_of_keys [of "g_node (graph s)" n] by simp
    with Some r_update_calculation_node.IH wf_update_attrs [of "graph s" n a "nupd a"]
    show ?thesis by (simp add: update_calculation_node_def invariant_def keys_update)
  qed
next
  case (r_remove_connection s a b)
  then show ?case
    by (cases "has_edge (graph s) a b")
       (simp_all add: invariant_def remove_connection_def wf_remove_edge g_node_remove_edge)
next
  case (r_clear_system s)
  then show ?case
    by (simp add: invariant_def clear_system_def wf_DiGraph) (simp add: keys_def DiGraph_def)
qed


section \<open>The variable registry\<close>

lemma entries_for_present:
  "distinct (keys al) \<Longrightarrow> has_key k al \<Longrightarrow> entries_for k al = 1"
proof (induction al)
  case Nil
  then show ?case by (simp add: has_key_def keys_def)
next
  case (Cons a al)
  show ?case
  proof (cases "fst a = k")
    case True
    with Cons.prems have "k \<notin> fst ` set al" by (simp add: keys_def)
    then have "filter (\<lambda>kv. fst kv = k) al = []" by (auto simp: filter_empty_conv)
    with True show ?thesis by (simp add: entries_for_def)
  next
    case False
    with Cons show ?thesis by (simp add: entries_for_def has_key_def keys_def)
  qed
qed

lemma has_key_update: "has_key k (AList.update k v al)"
  by (simp add: has_key_def keys_update)

lemma has_key_delete: "\<not> has_key k (AList.delete k al)"
  by (simp add: has_key_def keys_delete)

text \<open>
  C4, as stated, fails when the name is re-added under the other type: the variable
  \<open>x\<close>, added as input and then as intermediate, has two entries, one in each
  registry, and the input registry still holds the attributes of the first call.
\<close>

theorem add_variable_counterexample:
  "entries_for ''x'' (input_variables
      (add_variable one_input ''x'' ''intermediate'' ''second'' ''int'' None None None ''t2'')) +
   entries_for ''x'' (intermediate_variables
      (add_variable one_input ''x'' ''intermediate'' ''second'' ''int'' None None None ''t2'')) = 2 \<and>
   map_of (input_variables
      (add_variable one_input ''x'' ''intermediate'' ''second'' ''int'' None None None ''t2'')) ''x'' =
     Some \<lparr>v_name = ''x'', v_type = ''input'', v_description = ''first'', v_data_type = ''float'',
           v_legal_reference = None, v_calculation_formula = None, v_depends_on = [],
           v_created_at = ''t1''\<rparr>"
  by (simp add: one_input_def add_variable_def PayrollVariableGraph_init_def entries_for_def)

text \<open>
  C4, amended. In every state of the engine, for every name already present in the
  registry that the given type designates, \<open>add_variable\<close> (which cannot fail)
  overwrites the entry: afterwards that registry holds exactly one entry for the name,
  with the newly supplied attributes, at the place of the old one, and everything else
  is unchanged, the other registry included.
\<close>

theorem add_variable_upsert:
  assumes "reachable self" and "has_key name (registry_for var_type self)"
  shows "let s' = add_variable self name var_type d dt lr cf deps now;
             info = \<lparr>v_name = name, v_type = var_type, v_description = d, v_data_type = dt,
                     v_legal_reference = lr, v_calculation_formula = cf,
                     v_depends_on = (case deps of None \<Rightarrow> [] | Some ds \<Rightarrow> ds),
                     v_created_at = now\<rparr>
         in entries_for name (registry_for var_type s') = 1 \<and>
            map_of (registry_for var_type s') name = Some info \<and>
            keys (registry_for var_type s') = keys (registry_for var_type self) \<and>
            (\<forall>k. k \<noteq> name \<longrightarrow>
                 map_of (registry_for var_type s') k = map_of (registry_for var_type self) k) \<and>
            other_registry var_type s' = other_registry var_type self"
proof -
  define info where
    "info = \<lparr>v_name = name, v_type = var_type, v_description = d, v_data_type = dt,
             v_legal_reference = lr, v_calculation_formula = cf,
             v_depends_on = (case deps of None \<Rightarrow> [] | Some ds \<Rightarrow> ds), v_created_at = now\<rparr>"
  define s' where "s' = add_variable self name var_type d dt lr cf deps now"
  have reg: "registry_for var_type s' = AList.update name info (registry_for var_type self)"
    by (simp add: s'_def info_def add_variable_def registry_for_def)
  have oth: "other_registry var_type s' = other_registry var_type self"
    by (simp add: s'_def add_variable_def other_registry_def)
  from assms(1) have "invariant self" by (rule reachable_invariant)
  then have dist: "distinct (keys (registry_for var_type self))"
    by (simp add: invariant_def registry_for_def)
  then have "distinct (keys (AList.update name info (registry_for var_type self)))"
    by (simp add: keys_update)
  then have one: "entries_for name (registry_for var_type s') = 1"
    unfolding reg by (rule entries_for_present) (rule has_key_update)
  have ks: "keys (registry_for var_type s') = keys (registry_for var_type self)"
    using assms(2) by (simp add: reg keys_update has_key_def)
  have mp: "map_of (registry_for var_type s') name = Some info"
    by (simp add: reg AList.update_conv')
  have rest: "\<forall>k. k \<noteq> name \<longrightarrow>
       map_of (registry_for var_type s') k = map_of (registry_for var_type self) k"
    by (simp add: reg AList.update_conv')
  from one mp ks rest oth show ?thesis
    unfolding Let_def s'_def [symmetric] info_def [symmetric] by blast
qed

theorem add_variable_upsert_witness:
  "reachable one_input \<and> has_key ''x'' (registry_for ''input'' one_input) \<and>
   input_variables (add_variable one_input ''x'' ''input'' ''again'' ''int'' None None None ''t2'') =
     [(''x'', \<lparr>v_name = ''x'', v_type = ''input'', v_description = ''again'', v_data_type = ''int'',
           v_legal_reference = None, v_calculation_formula = None, v_depends_on = [],
           v_created_at = ''t2''\<rparr>)] \<and>
   entries_for ''x'' (registry_for ''input''
     (add_variable one_input ''x'' ''input'' ''again'' ''int'' None None None ''t2'')) = 1"
proof -
  have r: "reachable one_input"
    unfolding one_input_def by (rule r_add_variable) (rule r_init)
  have h: "has_key ''x'' (registry_for ''input'' one_input)"
    by (simp add: one_input_def add_variable_def PayrollVariableGraph_init_def registry_for_def
        has_key_def keys_def)
  from add_variable_upsert [OF r h, of "''again''" "''int''" None None None "''t2''"] r h
  show ?thesis
    by (simp add: Let_def) (simp add: one_input_def add_variable_def PayrollVariableGraph_init_def)
qed

text \<open>
  C10. A name added as input and then as intermediate, or the other way round, is in
  both registries, each holding the attributes of its own call; one
  \<open>remove_variable\<close> then returns \<open>True\<close> and leaves the name in neither registry.
\<close>

theorem variable_in_both_registries:
  "(let info1 = \<lparr>v_name = name, v_type = ''input'', v_description = d1, v_data_type = dt1,
                  v_legal_reference = lr1, v_calculation_formula = cf1,
                  v_depends_on = (case deps1 of None \<Rightarrow> [] | Some ds \<Rightarrow> ds), v_created_at = now1\<rparr>;
        info2 = \<lparr>v_name = name, v_type = ''intermediate'', v_description = d2, v_data_type = dt2,
                  v_legal_reference = lr2, v_calculation_formula = cf2,
                  v_depends_on = (case deps2 of None \<Rightarrow> [] | Some ds \<Rightarrow> ds), v_created_at = now2\<rparr>;
        s2 = add_variable (add_variable self name ''input'' d1 dt1 lr1 cf1 deps1 now1)
               name ''intermediate'' d2 dt2 lr2 cf2 deps2 now2;
        t2 = add_variable (add_variable self name ''intermediate'' d2 dt2 lr2 cf2 deps2 now2)
               name ''input'' d1 dt1 lr1 cf1 deps1 now1
    in map_of (input_variables s2) name = Some info1 \<and>
       map_of (intermediate_variables s2) name = Some info2 \<and>
       fst (remove_variable s2 name) = True \<and>
       \<not> has_key name (input_variables (snd (remove_variable s2 name))) \<and>
       \<not> has_key name (intermediate_variables (snd (remove_variable s2 name))) \<and>
       map_of (input_variables t2) name = Some info1 \<and>
       map_of (intermediate_variables t2) name = Some info2 \<and>
       fst (remove_variable t2 name) = True \<and>
       \<not> has_key name (input_variables (snd (remove_variable t2 name))) \<and>
       \<not> has_key name (intermediate_variables (snd (remove_variable t2 name))))"
  by (simp add: Let_def add_variable_def remove_variable_def has_key_update has_key_delete
      AList.update_conv')


section \<open>Executing a calculation\<close>

lemma map_of_filter_keys:
  "map_of (filter (\<lambda>(k, v). P k) al) k = (if P k then map_of al k else None)"
  by (induction al) auto

text \<open>
  A call of \<open>add_calculation_node\<close> that returns leaves the function registered under
  the node, with a signature, and the node in the graph with the given input variables.
\<close>

lemma add_calculation_node_registers:
  assumes "fst (add_calculation_node s n f d ov ivs lr now) = Inr ()"
  shows "map_of (function_registry (snd (add_calculation_node s n f d ov ivs lr now))) n = Some f \<and>
         (\<exists>sig. fn_signature f = Some sig) \<and>
         (\<exists>info. map_of (g_node (graph (snd (add_calculation_node s n f d ov ivs lr now)))) n =
                   Some info \<and>
                 n_input_variables info = Some (case ivs of None \<Rightarrow> [] | Some vs \<Rightarrow> vs))"
proof -
  from assms obtain name sig where "fn_name f = Some name" and sig: "fn_signature f = Some sig"
    by (auto simp: add_calculation_node_def Let_def split: option.splits)
  then show ?thesis
    by (simp add: add_calculation_node_def Let_def add_node_def AList.update_conv')
qed

lemma execute_calculation_registered:
  assumes r: "\<not> has_key ''self'' vv" "\<not> has_key ''node_id'' vv"
    and f: "map_of (function_registry self) node_id = Some func"
    and i: "map_of (g_node (graph self)) node_id = Some info"
    and q: "n_input_variables info = Some required"
  shows "(let missing = filter (\<lambda>var. \<not> has_key var vv) required
          in set missing = set required - set (keys vv) \<and>
             (missing \<noteq> [] \<longrightarrow>
                execute_calculation self node_id vv = Inl (MissingArguments node_id missing)) \<and>
             (missing = [] \<longrightarrow>
                (\<forall>sig. fn_signature func = Some sig \<longrightarrow>
                   (let args = filter (\<lambda>(k, v). k \<in> set (sig_parameters sig)) vv
                    in execute_calculation self node_id vv = fn_call func args \<and>
                       set (keys args) = set (keys vv) \<inter> set (sig_parameters sig) \<and>
                       (\<forall>k \<in> set (sig_parameters sig). map_of args k = map_of vv k)))))"
  unfolding Let_def
proof (intro conjI impI allI)
  show "set (filter (\<lambda>var. \<not> has_key var vv) required) = set required - set (keys vv)"
    by (auto simp: has_key_def)
next
  assume "filter (\<lambda>var. \<not> has_key var vv) required \<noteq> []"
  then show "execute_calculation self node_id vv =
       Inl (MissingArguments node_id (filter (\<lambda>var. \<not> has_key var vv) required))"
    using r f i q by (simp add: execute_calculation_def Let_def)
next
  fix sig
  assume "filter (\<lambda>var. \<not> has_key var vv) required = []" and "fn_signature func = Some sig"
  then show "execute_calculation self node_id vv =
        fn_call func (filter (\<lambda>(k, v). k \<in> set (sig_parameters sig)) vv)"
    using r f i q by (simp add: execute_calculation_def Let_def)
next
  fix sig
  show "set (keys (filter (\<lambda>(k, v). k \<in> set (sig_parameters sig)) vv)) =
           set (keys vv) \<inter> set (sig_parameters sig)"
    by (auto simp: keys_def)
next
  fix sig
  show "\<forall>k \<in> set (sig_parameters sig).
             map_of (filter (\<lambda>(k, v). k \<in> set (sig_parameters sig)) vv) k = map_of vv k"
    by (simp add: map_of_filter_keys)
qed

text \<open>
  C1, as stated, fails in two places. A supplied value named \<open>node_id\<close> is not ignored:
  on the two-node sample, whose node \<open>a\<close> is registered with the function \<open>take_x\<close>,
  the call with \<open>x\<close> and \<open>node_id\<close> raises \<open>TypeError\<close>. And a registered function need
  not have a node: registering under \<open>p\<close> a callable without a \<open>__name__\<close> raises after
  the registry is written, the function is found in the registry, and executing \<open>p\<close>
  raises \<open>KeyError\<close>, which is neither of the two errors of the claim nor a result of
  the function.
\<close>

theorem execute_calculation_counterexample:
  "map_of (function_registry two_nodes) ''a'' = Some take_x \<and>
   execute_calculation two_nodes ''a'' [(''x'', PInt 1), (''node_id'', PInt 2)] =
     Inl (TypeError ''got multiple values for argument'') \<and>
   fst (add_calculation_node PayrollVariableGraph_init ''p'' no_name ''partial'' None None None
          ''t0'') = Inl (AttributeError ''__name__'') \<and>
   map_of (function_registry half_registered) ''p'' = Some no_name \<and>
   execute_calculation half_registered ''p'' [] = Inl (KeyError ''p'')"
  by (simp add: two_nodes_def half_registered_def add_calculation_node_def
      PayrollVariableGraph_init_def execute_calculation_def has_key_def keys_def no_name_def
      take_x_def DiGraph_def add_node_def)

text \<open>
  C1, amended. When none of the supplied values is named \<open>self\<close> or \<open>node_id\<close>:
  \<open>execute_calculation\<close> fails with \<open>UnknownNode\<close> for a node without a registered
  function. For a node that has a registered function and is in the graph with a list
  of input variables, when some of these are not among the supplied names the call
  fails with \<open>MissingArguments\<close> carrying exactly those (in their declared order);
  otherwise, for a function with a signature, the result is what the function returns
  or raises when called with the supplied values filtered down to its parameter names,
  so that other supplied names are ignored.
\<close>

theorem execute_calculation_contract:
  assumes "\<not> has_key ''self'' vv" and "\<not> has_key ''node_id'' vv"
  shows
   "(\<not> has_key node_id (function_registry self) \<longrightarrow>
       execute_calculation self node_id vv = Inl (UnknownNode node_id)) \<and>
    (\<forall>func info required.
       map_of (function_registry self) node_id = Some func \<and>
       map_of (g_node (graph self)) node_id = Some info \<and>
       n_input_variables info = Some required \<longrightarrow>
       (let missing = filter (\<lambda>var. \<not> has_key var vv) required
        in set missing = set required - set (keys vv) \<and>
           (missing \<noteq> [] \<longrightarrow>
              execute_calculation self node_id vv = Inl (MissingArguments node_id missing)) \<and>
           (missing = [] \<longrightarrow>
              (\<forall>sig. fn_signature func = Some sig \<longrightarrow>
                 (let args = filter (\<lambda>(k, v). k \<in> set (sig_parameters sig)) vv
                  in execute_calculation self node_id vv = fn_call func args \<and>
                     set (keys args) = set (keys vv) \<inter> set (sig_parameters sig) \<and>
                     (\<forall>k \<in> set (sig_parameters sig). map_of args k = map_of vv k))))))"
proof (intro conjI allI impI)
  assume "\<not> has_key node_id (function_registry self)"
  then have "map_of (function_registry self) node_id = None"
    by (simp add: map_of_keys has_key_def)
  with assms show "execute_calculation self node_id vv = Inl (UnknownNode node_id)"
    by (simp add: execute_calculation_def)
next
  fix func info required
  assume "map_of (function_registry self) node_id = Some func \<and>
       map_of (g_node (graph self)) node_id = Some info \<and>
       n_input_variables info = Some required"
  then have h: "map_of (function_registry self) node_id = Some func"
    "map_of (g_node (graph self)) node_id = Some info" "n_input_variables info = Some required"
    by simp_all
  show "let missing = filter (\<lambda>var. \<not> has_key var vv) required
        in set missing = set required - set (keys vv) \<and>
           (missing \<noteq> [] \<longrightarrow>
              execute_calculation self node_id vv = Inl (MissingArguments node_id missing)) \<and>
           (missing = [] \<longrightarrow>
              (\<forall>sig. fn_signature func = Some sig \<longrightarrow>
                 (let args = filter (\<lambda>(k, v). k \<in> set (sig_parameters sig)) vv
                  in execute_calculation self node_id vv = fn_call func args \<and>
                     set (keys args) = set (keys vv) \<inter> set (sig_parameters sig) \<and>
                     (\<forall>k \<in> set (sig_parameters sig). map_of args k = map_of vv k))))"
    by (rule execute_calculation_registered [OF assms h])
qed

lemma two_nodes_registry:
  "function_registry two_nodes = [(''a'', take_x), (''b'', take_x)]"
  by (simp add: two_nodes_def add_calculation_node_def PayrollVariableGraph_init_def take_x_def)

lemma two_nodes_g_node:
  "g_node (graph two_nodes) =
     [(''a'', \<lparr>n_description = ''first'', n_function_name = ''f'', n_function_signature = ''(x)'',
              n_function_doc = [], n_output_variable = None, n_input_variables = Some [''x''],
              n_legal_reference = None, n_node_type = ''calculation'', n_created_at = ''t1''\<rparr>),
      (''b'', \<lparr>n_description = ''second'', n_function_name = ''f'', n_function_signature = ''(x)'',
              n_function_doc = [], n_output_variable = None,
              n_input_variables = Some [''x'', ''z''],
              n_legal_reference = None, n_node_type = ''calculation'', n_created_at = ''t2''\<rparr>)]"
  by (simp add: two_nodes_def add_calculation_node_def PayrollVariableGraph_init_def
      add_node_def DiGraph_def has_key_def keys_def take_x_def)

theorem execute_calculation_contract_witness:
  "fst (add_calculation_node PayrollVariableGraph_init ''a'' take_x ''first'' None
          (Some [''x'']) None ''t1'') = Inr () \<and>
   \<not> has_key ''c'' (function_registry two_nodes) \<and>
   execute_calculation two_nodes ''c'' [(''x'', PInt 1)] = Inl (UnknownNode ''c'') \<and>
   map_of (function_registry two_nodes) ''b'' = Some take_x \<and>
   execute_calculation two_nodes ''b'' [(''x'', PInt 1)] = Inl (MissingArguments ''b'' [''z'']) \<and>
   map_of (function_registry two_nodes) ''a'' = Some take_x \<and>
   execute_calculation two_nodes ''a'' [(''x'', PInt 1), (''y'', PInt 2)] = Inr (PInt 1)"
proof -
  have reg: "fst (add_calculation_node PayrollVariableGraph_init ''a'' take_x ''first'' None
          (Some [''x'']) None ''t1'') = Inr ()"
    by (simp add: add_calculation_node_def take_x_def)
  have hc: "\<not> has_key ''c'' (function_registry two_nodes)"
    by (simp add: two_nodes_registry has_key_def keys_def)
  have hb: "map_of (function_registry two_nodes) ''b'' = Some take_x"
    by (simp add: two_nodes_registry)
  have ha: "map_of (function_registry two_nodes) ''a'' = Some take_x"
    by (simp add: two_nodes_registry)
  have s: "fn_signature take_x = Some \<lparr>sig_text = ''(x)'', sig_parameters = [''x'']\<rparr>"
    by (simp add: take_x_def)
  have r1: "\<not> has_key ''self'' [(''x'', PInt 1)]" "\<not> has_key ''node_id'' [(''x'', PInt 1)]"
    by (simp_all add: has_key_def keys_def)
  have r2: "\<not> has_key ''self'' [(''x'', PInt 1), (''y'', PInt 2)]"
    "\<not> has_key ''node_id'' [(''x'', PInt 1), (''y'', PInt 2)]"
    by (simp_all add: has_key_def keys_def)
  from execute_calculation_contract [OF r1, of "''c''" two_nodes] hc
  have c: "execute_calculation two_nodes ''c'' [(''x'', PInt 1)] = Inl (UnknownNode ''c'')"
    by simp
  from execute_calculation_contract [OF r1, of "''b''" two_nodes] hb
  have b: "execute_calculation two_nodes ''b'' [(''x'', PInt 1)] = Inl (MissingArguments ''b'' [''z''])"
    by (simp add: two_nodes_g_node has_key_def keys_def Let_def)
  from execute_calculation_contract [OF r2, of "''a''" two_nodes] ha s
  have a: "execute_calculation two_nodes ''a'' [(''x'', PInt 1), (''y'', PInt 2)] = Inr (PInt 1)"
    by (simp add: two_nodes_g_node has_key_def keys_def Let_def take_x_def)
  show ?thesis by (intro conjI) (fact reg hc c hb b ha a)+
qed


section \<open>Edges\<close>

lemma filter_key_map_of:
  "distinct (keys nbrs) \<Longrightarrow>
   filter (\<lambda>e. fst e = v) nbrs = (case map_of nbrs v of None \<Rightarrow> [] | Some d \<Rightarrow> [(v, d)])"
proof (induction nbrs)
  case Nil
  then show ?case by simp
next
  case (Cons a nbrs)
  obtain b d where a: "a = (b, d)" by (cases a)
  show ?case
  proof (cases "b = v")
    case True
    with Cons.prems a have "v \<notin> fst ` set nbrs" by (simp add: keys_def)
    then have "filter (\<lambda>e. fst e = v) nbrs = []" by (force simp: filter_empty_conv)
    with True a show ?thesis by simp
  next
    case False
    with Cons a show ?thesis by (simp add: keys_def)
  qed
qed

lemma out_edges_filter:
  "filter (\<lambda>e. fst e = u \<and> fst (snd e) = v) (map (Pair x) nbrs) =
     (if x = u then map (Pair x) (filter (\<lambda>e. fst e = v) nbrs) else [])"
  by (induction nbrs) auto

lemma no_out_edges:
  "u \<notin> set (keys adj) \<Longrightarrow>
   filter (\<lambda>e. fst e = u \<and> fst (snd e) = v)
     (concat (map (\<lambda>(x, nbrs). map (\<lambda>(w, d). (x, w, d)) nbrs) adj)) = []"
  by (induction adj) (auto simp: keys_def out_edges_filter)

lemma edges_between_adj:
  "distinct (keys adj) \<Longrightarrow> list_all (\<lambda>(x, nbrs). distinct (keys nbrs)) adj \<Longrightarrow>
   filter (\<lambda>e. fst e = u \<and> fst (snd e) = v)
     (concat (map (\<lambda>(x, nbrs). map (\<lambda>(w, d). (x, w, d)) nbrs) adj)) =
   (case map_of adj u of None \<Rightarrow> []
    | Some nbrs \<Rightarrow> (case map_of nbrs v of None \<Rightarrow> [] | Some d \<Rightarrow> [(u, v, d)]))"
proof (induction adj)
  case Nil
  then show ?case by simp
next
  case (Cons a adj)
  obtain x nb where a: "a = (x, nb)" by (cases a)
  show ?case
  proof (cases "x = u")
    case True
    with Cons.prems a have "u \<notin> set (keys adj)" by (simp add: keys_def)
    then have rest: "filter (\<lambda>e. fst e = u \<and> fst (snd e) = v)
        (concat (map (\<lambda>(x, nbrs). map (\<lambda>(w, d). (x, w, d)) nbrs) adj)) = []"
      by (rule no_out_edges)
    from Cons.prems a have "distinct (keys nb)" by simp
    then have "filter (\<lambda>e. fst e = v) nb = (case map_of nb v of None \<Rightarrow> [] | Some d \<Rightarrow> [(v, d)])"
      by (rule filter_key_map_of)
    with True a rest show ?thesis by (simp add: out_edges_filter split: option.splits)
  next
    case False
    with Cons a show ?thesis by (simp add: keys_def out_edges_filter)
  qed
qed

lemma edges_between_map_of:
  assumes "wf_digraph g"
  shows "edges_between g u v =
     (case map_of (g_adj g) u of None \<Rightarrow> []
      | Some nbrs \<Rightarrow> (case map_of nbrs v of None \<Rightarrow> [] | Some d \<Rightarrow> [(u, v, d)]))"
proof -
  from assms have "distinct (keys (g_adj g))" by (simp add: wf_digraph_def)
  moreover from assms have "list_all (\<lambda>(x, nbrs). distinct (keys nbrs)) (g_adj g)"
    by (auto simp: wf_digraph_def list_all_iff)
  ultimately show ?thesis unfolding edges_between_def edges_def by (rule edges_between_adj)
qed

lemma edges_between_le_1: "wf_digraph g \<Longrightarrow> length (edges_between g u v) \<le> 1"
  by (simp add: edges_between_map_of split: option.splits)

lemma distinct_dict_update: "distinct (keys d) \<Longrightarrow> distinct (keys (dict_update d e))"
  by (induction d e rule: dict_update.induct) (simp_all add: keys_update)

lemma map_of_dict_update:
  "distinct (keys e) \<Longrightarrow> map_of (dict_update d e) = map_of d ++ map_of e"
proof (induction e arbitrary: d)
  case Nil
  then show ?case by simp
next
  case (Cons a e)
  obtain k v where a: "a = (k, v)" by (cases a)
  from Cons.prems a have k: "map_of e k = None" by (simp add: map_of_keys keys_def)
  from Cons.prems have "distinct (keys e)" by (simp add: keys_def)
  then have "map_of (dict_update d (a # e)) = map_of (AList.update k v d) ++ map_of e"
    using Cons.IH [of "AList.update k v d"] a by simp
  also have "\<dots> = map_of d ++ map_of (a # e)"
    using k by (intro ext) (auto simp: a AList.update_conv' map_add_def split: option.splits)
  finally show ?case .
qed

lemma edges_between_add_edge:
  assumes "wf_digraph g" and "has_node g u" and "has_node g v"
  shows "edges_between (add_edge g u v attr) u v =
     [(u, v, dict_update (case edges_between g u v of [] \<Rightarrow> [] | (a, b, d) # r \<Rightarrow> d) attr)]"
proof -
  from assms(1,2) obtain nbrs where nb: "map_of (g_adj g) u = Some nbrs"
    by (cases "map_of (g_adj g) u") (auto simp: wf_digraph_def has_node_def has_key_def map_of_keys)
  define old where "old = (case map_of nbrs v of None \<Rightarrow> [] | Some d \<Rightarrow> d)"
  have o: "(case edges_between g u v of [] \<Rightarrow> [] | (a, b, d) # r \<Rightarrow> d) = old"
    using assms(1) nb by (simp add: edges_between_map_of old_def split: option.splits)
  have "g_adj (add_edge g u v attr) =
          AList.update u (AList.update v (dict_update old attr) nbrs) (g_adj g)"
    by (simp add: add_edge_def nb old_def)
  then have "map_of (g_adj (add_edge g u v attr)) u = Some (AList.update v (dict_update old attr) nbrs)"
    by (simp add: AList.update_conv')
  moreover have "map_of (AList.update v (dict_update old attr) nbrs) v = Some (dict_update old attr)"
    by (simp add: AList.update_conv')
  moreover have "wf_digraph (add_edge g u v attr)" using assms by (rule wf_add_edge)
  ultimately show ?thesis by (simp add: edges_between_map_of o)
qed


lemma no_edge_between:
  "wf_digraph g \<Longrightarrow> \<not> has_edge g u v \<Longrightarrow> edges_between g u v = []"
  by (auto simp: edges_between_map_of has_edge_def has_key_def map_of_keys [symmetric]
      split: option.splits)

lemma connect_calculations_ok:
  "has_node (graph s) a \<Longrightarrow> has_node (graph s) b \<Longrightarrow>
   connect_calculations s a b vp attrs now =
     Inr (s\<lparr>graph := add_edge (graph s) a b (edge_attrs_of vp attrs now)\<rparr>)"
  by (simp add: connect_calculations_def edge_attrs_of_def)

lemma has_node_add_edge: "has_node (add_edge g u v a) n = has_node g n"
  by (simp add: has_node_def g_node_add_edge)

text \<open>
  C5. In every state of the engine and for all nodes \<open>n1\<close>, \<open>n2\<close> of the graph, two
  calls of \<open>connect_calculations\<close> from \<open>n1\<close> to \<open>n2\<close> both succeed and leave
  exactly one edge from \<open>n1\<close> to \<open>n2\<close>. The second call stores its attributes into the
  attribute dict of that edge: each key it supplies (\<open>variable_passed\<close> and
  \<open>created_at\<close> always) gets the new value, and when neither call passes extra
  keyword attributes and no edge was there before, the dict is exactly the one of the
  second call. In every state there is at most one edge per ordered pair of nodes.
\<close>

theorem connect_twice_single_edge:
  assumes "reachable self" and "has_node (graph self) n1" and "has_node (graph self) n2"
  shows "\<exists>s1 s2 d1.
      connect_calculations self n1 n2 vp1 a1 t1 = Inr s1 \<and>
      connect_calculations s1 n1 n2 vp2 a2 t2 = Inr s2 \<and>
      edges_between (graph s1) n1 n2 = [(n1, n2, d1)] \<and>
      edges_between (graph s2) n1 n2 = [(n1, n2, dict_update d1 (edge_attrs_of vp2 a2 t2))] \<and>
      map_of (dict_update d1 (edge_attrs_of vp2 a2 t2)) =
        map_of d1 ++ map_of (edge_attrs_of vp2 a2 t2) \<and>
      (a1 = [] \<and> a2 = [] \<and> \<not> has_edge (graph self) n1 n2 \<longrightarrow>
         dict_update d1 (edge_attrs_of vp2 a2 t2) = edge_attrs_of vp2 a2 t2) \<and>
      (\<forall>u v. length (edges_between (graph self) u v) \<le> 1) \<and>
      (\<forall>u v. length (edges_between (graph s1) u v) \<le> 1) \<and>
      (\<forall>u v. length (edges_between (graph s2) u v) \<le> 1)"
proof -
  define e1 where "e1 = edge_attrs_of vp1 a1 t1"
  define e2 where "e2 = edge_attrs_of vp2 a2 t2"
  define old where
    "old = (case edges_between (graph self) n1 n2 of [] \<Rightarrow> [] | (a, b, d) # r \<Rightarrow> d)"
  define d1 where "d1 = dict_update old e1"
  define s1 where "s1 = self\<lparr>graph := add_edge (graph self) n1 n2 e1\<rparr>"
  define s2 where "s2 = s1\<lparr>graph := add_edge (graph s1) n1 n2 e2\<rparr>"
  have c1: "connect_calculations self n1 n2 vp1 a1 t1 = Inr s1"
    using assms(2,3) by (simp add: connect_calculations_ok s1_def e1_def)
  have n: "has_node (graph s1) n1" "has_node (graph s1) n2"
    using assms(2,3) by (simp_all add: s1_def has_node_add_edge)
  then have c2: "connect_calculations s1 n1 n2 vp2 a2 t2 = Inr s2"
    by (simp add: connect_calculations_ok s2_def e2_def)
  from assms(1) have r0: "invariant self" by (rule reachable_invariant)
  from assms(1) c1 have "reachable s1" by (rule r_connect_calculations)
  then have r1: "invariant s1" by (rule reachable_invariant)
  from \<open>reachable s1\<close> c2 have "reachable s2" by (rule r_connect_calculations)
  then have r2: "invariant s2" by (rule reachable_invariant)
  from r0 have w0: "wf_digraph (graph self)" by (simp add: invariant_def)
  from r1 have w1: "wf_digraph (graph s1)" by (simp add: invariant_def)
  from r2 have w2: "wf_digraph (graph s2)" by (simp add: invariant_def)
  have b1: "edges_between (graph s1) n1 n2 = [(n1, n2, d1)]"
    using edges_between_add_edge [OF w0 assms(2,3), of e1]
    by (simp add: s1_def d1_def old_def)
  have b2: "edges_between (graph s2) n1 n2 = [(n1, n2, dict_update d1 e2)]"
    using edges_between_add_edge [OF w1 n, of e2] b1
    by (simp add: s2_def)
  have "distinct (keys e2)"
    unfolding e2_def edge_attrs_of_def by (rule distinct_dict_update) (simp add: keys_def)
  then have m: "map_of (dict_update d1 e2) = map_of d1 ++ map_of e2"
    by (rule map_of_dict_update)
  have p: "a1 = [] \<and> a2 = [] \<and> \<not> has_edge (graph self) n1 n2 \<longrightarrow> dict_update d1 e2 = e2"
  proof
    assume h: "a1 = [] \<and> a2 = [] \<and> \<not> has_edge (graph self) n1 n2"
    with w0 have "old = []" by (simp add: old_def no_edge_between)
    with h show "dict_update d1 e2 = e2"
      by (simp add: d1_def e1_def e2_def edge_attrs_of_def)
  qed
  have le:
    "\<forall>u v. length (edges_between (graph self) u v) \<le> 1"
    "\<forall>u v. length (edges_between (graph s1) u v) \<le> 1"
    "\<forall>u v. length (edges_between (graph s2) u v) \<le> 1"
    using w0 w1 w2 edges_between_le_1 by blast+
  from c1 c2 b1 b2 m p le show ?thesis
    unfolding e2_def by (intro exI [of _ s1] exI [of _ s2] exI [of _ d1] conjI)
qed


lemma two_nodes_reachable: "reachable two_nodes"
  unfolding two_nodes_def by (intro r_add_calculation_node r_init)

lemma two_nodes_g_adj: "g_adj (graph two_nodes) = [(''a'', []), (''b'', [])]"
  by (simp add: two_nodes_def add_calculation_node_def PayrollVariableGraph_init_def
      add_node_def DiGraph_def has_key_def keys_def take_x_def)

lemma two_nodes_has_node: "has_node (graph two_nodes) ''a'' \<and> has_node (graph two_nodes) ''b''"
  by (simp add: has_node_def has_key_def keys_def two_nodes_g_node)

theorem connect_twice_single_edge_witness:
  "reachable two_nodes \<and> has_node (graph two_nodes) ''a'' \<and> has_node (graph two_nodes) ''b'' \<and>
   (\<exists>s1 s2. connect_calculations two_nodes ''a'' ''b'' (Some ''x'') [] ''t3'' = Inr s1 \<and>
      connect_calculations s1 ''a'' ''b'' (Some ''y'') [] ''t4'' = Inr s2 \<and>
      edges_between (graph s2) ''a'' ''b'' =
        [(''a'', ''b'', [(''variable_passed'', PStr ''y''), (''created_at'', PStr ''t4'')])])"
proof -
  have ne: "\<not> has_edge (graph two_nodes) ''a'' ''b''"
    by (simp add: has_edge_def two_nodes_g_adj has_key_def keys_def)
  have e: "edge_attrs_of (Some ''y'') [] ''t4'' =
             [(''variable_passed'', PStr ''y''), (''created_at'', PStr ''t4'')]"
    by (simp add: edge_attrs_of_def)
  from connect_twice_single_edge [OF two_nodes_reachable two_nodes_has_node [THEN conjunct1]
      two_nodes_has_node [THEN conjunct2], of "Some ''x''" "[]" "''t3''" "Some ''y''" "[]" "''t4''"]
  obtain s1 s2 d1 where
    "connect_calculations two_nodes ''a'' ''b'' (Some ''x'') [] ''t3'' = Inr s1"
    "connect_calculations s1 ''a'' ''b'' (Some ''y'') [] ''t4'' = Inr s2"
    "edges_between (graph s2) ''a'' ''b'' =
       [(''a'', ''b'', dict_update d1 (edge_attrs_of (Some ''y'') [] ''t4''))]"
    "dict_update d1 (edge_attrs_of (Some ''y'') [] ''t4'') = edge_attrs_of (Some ''y'') [] ''t4''"
    using ne by blast
  then have "\<exists>s1 s2. connect_calculations two_nodes ''a'' ''b'' (Some ''x'') [] ''t3'' = Inr s1 \<and>
      connect_calculations s1 ''a'' ''b'' (Some ''y'') [] ''t4'' = Inr s2 \<and>
      edges_between (graph s2) ''a'' ''b'' =
        [(''a'', ''b'', [(''variable_passed'', PStr ''y''), (''created_at'', PStr ''t4'')])]"
    unfolding e by metis
  with two_nodes_reachable two_nodes_has_node show ?thesis by (intro conjI) simp_all
qed


section \<open>Removing a node\<close>

lemma remove_from_out_edges:
  "map (Pair u) (AList.delete n nbrs) =
     filter (\<lambda>e. fst e \<noteq> n \<and> fst (snd e) \<noteq> n) (map (Pair u) nbrs)" if "u \<noteq> n"
  using that by (induction nbrs) auto

lemma edges_remove_node:
  "edges (remove_node g n) = filter (\<lambda>e. fst e \<noteq> n \<and> fst (snd e) \<noteq> n) (edges g)"
proof -
  have "concat (map (\<lambda>(u, nbrs). map (\<lambda>(v, d). (u, v, d)) nbrs)
          (map (\<lambda>(u, nbrs). (u, AList.delete n nbrs)) (AList.delete n adj))) =
        filter (\<lambda>e. fst e \<noteq> n \<and> fst (snd e) \<noteq> n)
          (concat (map (\<lambda>(u, nbrs). map (\<lambda>(v, d). (u, v, d)) nbrs) adj))"
    for adj :: "(string, (string, edge_attrs) dict) dict"
  proof (induction adj)
    case Nil
    show ?case by simp
  next
    case (Cons a adj)
    obtain u nbrs where a: "a = (u, nbrs)" by (cases a)
    show ?case
    proof (cases "u = n")
      case True
      have "filter (\<lambda>e. fst e \<noteq> n \<and> fst (snd e) \<noteq> n) (map (Pair n) nbrs) = []"
        by (simp add: filter_empty_conv)
      with True a Cons.IH show ?thesis by simp
    next
      case False
      with a Cons.IH remove_from_out_edges [OF False, of nbrs] show ?thesis by simp
    qed
  qed
  then show ?thesis by (simp add: edges_def remove_node_def)
qed

lemma nodes_remove_node: "nodes (remove_node g n) = removeAll n (nodes g)"
  by (simp add: nodes_def remove_node_def keys_delete)

lemma visit_generation_nodes:
  "visit_generation g ns im z = Inr r \<Longrightarrow> \<forall>n \<in> set ns. has_node g n"
  by (induction ns arbitrary: im z) (auto split: if_splits sum.splits)

lemma generations_nodes:
  "generations g z im = Inr gens \<Longrightarrow> \<forall>n \<in> set (concat gens). has_node g n"
proof (induction g z im arbitrary: gens rule: generations.induct)
  case (1 g z im)
  show ?case
  proof (cases "z = []")
    case True
    with "1.prems" show ?thesis
      by (subst (asm) generations.simps) (auto split: if_splits)
  next
    case False
    with "1.prems" obtain im' z' later where
      v: "visit_generation g z im [] = Inr (im', z')" and
      l: "generations g z' im' = Inr later" and g: "gens = z # later"
      by (subst (asm) generations.simps) (auto split: sum.splits)
    from "1.IH" [OF False v refl l] visit_generation_nodes [OF v] g show ?thesis by auto
  qed
qed

lemma topological_sort_nodes:
  "topological_sort g = Inr order \<Longrightarrow> set order \<subseteq> set (nodes g)"
proof -
  assume "topological_sort g = Inr order"
  then obtain gens where
    "generations g
       (map fst (filter (\<lambda>(v, d). d = 0) (map (\<lambda>v. (v, in_degree g v)) (nodes g))))
       (filter (\<lambda>(v, d). d > 0) (map (\<lambda>v. (v, in_degree g v)) (nodes g))) = Inr gens"
    and "order = concat gens"
    by (auto simp: topological_sort_def Let_def split: sum.splits)
  with generations_nodes show ?thesis
    by (fastforce simp: has_node_def has_key_def nodes_def)
qed


text \<open>
  C6. For a node \<open>n\<close> of the graph, \<open>remove_calculation_node\<close> returns \<open>True\<close> and
  gives, in one step, the state without \<open>n\<close>, without its function and without any
  edge from or to \<open>n\<close>, every other node and edge staying in place; a topological sort
  of the graph after that never returns \<open>n\<close>. For a name that is not a node it
  returns \<open>False\<close> and the state is unchanged.
\<close>

theorem remove_calculation_node_cascades:
  "(has_node (graph self) n \<longrightarrow>
      fst (remove_calculation_node self n) = True \<and>
      (let s' = snd (remove_calculation_node self n)
       in \<not> has_node (graph s') n \<and>
          nodes (graph s') = removeAll n (nodes (graph self)) \<and>
          edges (graph s') = filter (\<lambda>e. fst e \<noteq> n \<and> fst (snd e) \<noteq> n) (edges (graph self)) \<and>
          \<not> has_key n (function_registry s') \<and>
          (\<forall>order. topological_sort (graph s') = Inr order \<longrightarrow> n \<notin> set order))) \<and>
   (\<not> has_node (graph self) n \<longrightarrow> remove_calculation_node self n = (False, self))"
proof (intro conjI impI)
  assume "\<not> has_node (graph self) n"
  then show "remove_calculation_node self n = (False, self)"
    by (simp add: remove_calculation_node_def)
next
  assume h: "has_node (graph self) n"
  then show "fst (remove_calculation_node self n) = True"
    by (simp add: remove_calculation_node_def Let_def)
  define s' where "s' = snd (remove_calculation_node self n)"
  have g: "graph s' = remove_node (graph self) n"
    using h by (simp add: s'_def remove_calculation_node_def Let_def)
  have f: "\<not> has_key n (function_registry s')"
    using h by (simp add: s'_def remove_calculation_node_def Let_def has_key_delete)
  have a: "nodes (graph s') = removeAll n (nodes (graph self))"
    by (simp add: g nodes_remove_node)
  then have b: "\<not> has_node (graph s') n"
    by (simp add: has_node_def has_key_def nodes_def)
  have c: "edges (graph s') = filter (\<lambda>e. fst e \<noteq> n \<and> fst (snd e) \<noteq> n) (edges (graph self))"
    by (simp add: g edges_remove_node)
  have d: "\<forall>order. topological_sort (graph s') = Inr order \<longrightarrow> n \<notin> set order"
  proof (intro allI impI)
    fix order
    assume "topological_sort (graph s') = Inr order"
    then have "set order \<subseteq> set (nodes (graph s'))" by (rule topological_sort_nodes)
    with a show "n \<notin> set order" by auto
  qed
  from a b c d f show "let s' = snd (remove_calculation_node self n)
       in \<not> has_node (graph s') n \<and>
          nodes (graph s') = removeAll n (nodes (graph self)) \<and>
          edges (graph s') = filter (\<lambda>e. fst e \<noteq> n \<and> fst (snd e) \<noteq> n) (edges (graph self)) \<and>
          \<not> has_key n (function_registry s') \<and>
          (\<forall>order. topological_sort (graph s') = Inr order \<longrightarrow> n \<notin> set order)"
    unfolding Let_def s'_def [symmetric] by (intro conjI)
qed

lemma connected_nodes_graph:
  "graph connected_nodes =
     \<lparr>g_node = g_node (graph two_nodes),
      g_adj = [(''a'', [(''b'', [(''variable_passed'', PStr ''x''), (''created_at'', PStr ''t3'')])]),
               (''b'', [])]\<rparr>"
  by (simp add: connected_nodes_def add_edge_def two_nodes_g_adj edge_attrs_of_def)

lemma connected_nodes_connect:
  "connect_calculations two_nodes ''a'' ''b'' (Some ''x'') [] ''t3'' = Inr connected_nodes"
  using two_nodes_has_node by (simp add: connect_calculations_ok connected_nodes_def)

lemma connected_nodes_removed:
  "graph (snd (remove_calculation_node connected_nodes ''a'')) =
     \<lparr>g_node = [(''b'', \<lparr>n_description = ''second'', n_function_name = ''f'',
                n_function_signature = ''(x)'', n_function_doc = [], n_output_variable = None,
                n_input_variables = Some [''x'', ''z''], n_legal_reference = None,
                n_node_type = ''calculation'', n_created_at = ''t2''\<rparr>)],
      g_adj = [(''b'', [])]\<rparr>"
  by (simp add: remove_calculation_node_def has_node_def has_key_def keys_def
      connected_nodes_graph two_nodes_g_node remove_node_def Let_def)

theorem remove_calculation_node_cascades_witness:
  "has_node (graph connected_nodes) ''a'' \<and>
   edges (graph connected_nodes) =
     [(''a'', ''b'', [(''variable_passed'', PStr ''x''), (''created_at'', PStr ''t3'')])] \<and>
   fst (remove_calculation_node connected_nodes ''a'') = True \<and>
   nodes (graph (snd (remove_calculation_node connected_nodes ''a''))) = [''b''] \<and>
   edges (graph (snd (remove_calculation_node connected_nodes ''a''))) = [] \<and>
   topological_sort (graph (snd (remove_calculation_node connected_nodes ''a''))) = Inr [''b''] \<and>
   \<not> has_node (graph connected_nodes) ''c'' \<and>
   remove_calculation_node connected_nodes ''c'' = (False, connected_nodes)"
proof -
  have ha: "has_node (graph connected_nodes) ''a''"
    by (simp add: has_node_def has_key_def keys_def connected_nodes_graph two_nodes_g_node)
  have hc: "\<not> has_node (graph connected_nodes) ''c''"
    by (simp add: has_node_def has_key_def keys_def connected_nodes_graph two_nodes_g_node)
  have e: "edges (graph connected_nodes) =
     [(''a'', ''b'', [(''variable_passed'', PStr ''x''), (''created_at'', PStr ''t3'')])]"
    by (simp add: edges_def connected_nodes_graph)
  have n: "nodes (graph connected_nodes) = [''a'', ''b'']"
    by (simp add: nodes_def keys_def connected_nodes_graph two_nodes_g_node)
  have t: "topological_sort (graph (snd (remove_calculation_node connected_nodes ''a''))) = Inr [''b'']"
    by (simp add: connected_nodes_removed topological_sort_def nodes_def keys_def in_degree_def
        edges_def generations.simps has_node_def has_key_def neighbors_def)
  from remove_calculation_node_cascades [of connected_nodes "''a''"]
    remove_calculation_node_cascades [of connected_nodes "''c''"] ha hc e n t
  show ?thesis by (simp add: Let_def)
qed


section \<open>The dependency analysis\<close>

lemma visit_children_raises:
  "visit_children cs im z = Inl e \<Longrightarrow> \<not> isinstance_NetworkXError e"
  by (induction cs arbitrary: im z) (auto split: option.splits if_splits)

lemma visit_generation_raises:
  "visit_generation g ns im z = Inl e \<Longrightarrow> \<not> isinstance_NetworkXError e"
proof (induction ns arbitrary: im z)
  case Nil
  then show ?case by simp
next
  case (Cons n ns)
  then show ?case
    by (auto split: if_splits sum.splits dest: visit_children_raises)
qed

lemma generations_raises:
  "generations g z im = Inl e \<Longrightarrow> \<not> isinstance_NetworkXError e"
proof (induction g z im rule: generations.induct)
  case (1 g z im)
  show ?case
  proof (cases "z = []")
    case True
    with "1.prems" show ?thesis
      by (subst (asm) generations.simps) (auto split: if_splits)
  next
    case False
    show ?thesis
    proof (cases "visit_generation g z im []")
      case (Inl e')
      with False "1.prems" have "e' = e" by (subst (asm) generations.simps) simp
      with Inl show ?thesis by (auto dest: visit_generation_raises)
    next
      case (Inr r)
      obtain im' z' where r: "r = (im', z')" by (cases r)
      with False Inr "1.prems" have "generations g z' im' = Inl e"
        by (subst (asm) generations.simps) (auto split: sum.splits)
      with "1.IH" [OF False Inr r [symmetric]] show ?thesis by simp
    qed
  qed
qed

lemma topological_sort_raises:
  "topological_sort g = Inl e \<Longrightarrow> \<not> isinstance_NetworkXError e"
  by (auto simp: topological_sort_def Let_def split: sum.splits dest: generations_raises)

text \<open>
  The sort raises \<open>NetworkXUnfeasible\<close> or \<open>RuntimeError\<close> and never a
  \<open>NetworkXError\<close>, so the handler of the dependency analysis never runs: whatever the
  sort raises leaves the method.
\<close>

lemma dependency_analysis_passes_on:
  "dependency_analysis self = (case topological_sort (graph self) of
       Inl e \<Rightarrow> Inl e
     | Inr topo_order \<Rightarrow>
         Inr [ExecutionOrder topo_order,
              EntryPoints (filter (\<lambda>n. in_degree (graph self) n = 0) (nodes (graph self))),
              ExitPoints (filter (\<lambda>n. out_degree (graph self) n = 0) (nodes (graph self)))])"
  by (auto simp: dependency_analysis_def Let_def split: sum.splits dest: topological_sort_raises)

lemma has_node_nodes: "has_node g n = (n \<in> set (nodes g))"
  by (simp add: has_node_def has_key_def nodes_def)

lemma three_nodes_graph:
  "g_adj (graph three_nodes) = [(''A'', []), (''B'', []), (''C'', [])] \<and>
   nodes (graph three_nodes) = [''A'', ''B'', ''C'']"
  by (simp add: three_nodes_def add_calculation_node_def PayrollVariableGraph_init_def
      add_node_def DiGraph_def has_key_def keys_def nodes_def take_x_def)

lemma cycle_abc_graph:
  "g_adj (graph cycle_abc) =
     [(''A'', [(''B'', [(''variable_passed'', PNone), (''created_at'', PStr ''t4'')])]),
      (''B'', [(''C'', [(''variable_passed'', PNone), (''created_at'', PStr ''t5'')])]),
      (''C'', [(''A'', [(''variable_passed'', PNone), (''created_at'', PStr ''t6'')])])] \<and>
   nodes (graph cycle_abc) = [''A'', ''B'', ''C'']"
  using three_nodes_graph
  by (simp add: cycle_abc_def chain_abc_def chain_ab_def add_edge_def edge_attrs_of_def nodes_def)

lemma chain_abc_graph:
  "g_adj (graph chain_abc) =
     [(''A'', [(''B'', [(''variable_passed'', PNone), (''created_at'', PStr ''t4'')])]),
      (''B'', [(''C'', [(''variable_passed'', PNone), (''created_at'', PStr ''t5'')])]),
      (''C'', [])] \<and>
   nodes (graph chain_abc) = [''A'', ''B'', ''C'']"
  using three_nodes_graph
  by (simp add: chain_abc_def chain_ab_def add_edge_def edge_attrs_of_def nodes_def)

lemma cycle_abc_connect:
  "connect_calculations three_nodes ''A'' ''B'' None [] ''t4'' = Inr chain_ab \<and>
   connect_calculations chain_ab ''B'' ''C'' None [] ''t5'' = Inr chain_abc \<and>
   connect_calculations chain_abc ''C'' ''A'' None [] ''t6'' = Inr cycle_abc"
  using three_nodes_graph
  by (simp add: connect_calculations_def cycle_abc_def chain_abc_def chain_ab_def
      has_node_nodes nodes_def g_node_add_edge)

text \<open>
  C3 at the cycle \<open>A \<rightarrow> B \<rightarrow> C \<rightarrow> A\<close>, which three successful calls of
  \<open>connect_calculations\<close> build (\<open>cycle_abc_connect\<close>). On the chain \<open>A \<rightarrow> B \<rightarrow> C\<close> the dependency analysis
  reports the order \<open>A, B, C\<close>. On the cycle the sort raises \<open>NetworkXUnfeasible\<close>,
  and the dependency analysis does not report it as an analysis error: the exception
  leaves \<open>to_llm_readable_text\<close>. The flowchart, which sorts the same graph under a
  bare \<open>except\<close>, handles it.
\<close>

theorem dependency_analysis_cycle_unhandled:
  "edges (graph cycle_abc) =
     [(''A'', ''B'', [(''variable_passed'', PNone), (''created_at'', PStr ''t4'')]),
      (''B'', ''C'', [(''variable_passed'', PNone), (''created_at'', PStr ''t5'')]),
      (''C'', ''A'', [(''variable_passed'', PNone), (''created_at'', PStr ''t6'')])] \<and>
   dependency_analysis chain_abc =
     Inr [ExecutionOrder [''A'', ''B'', ''C''], EntryPoints [''A''], ExitPoints [''C'']] \<and>
   topological_sort (graph cycle_abc) =
     Inl (NetworkXUnfeasible ''Graph contains a cycle or graph changed during iteration'') \<and>
   dependency_analysis cycle_abc =
     Inl (NetworkXUnfeasible ''Graph contains a cycle or graph changed during iteration'') \<and>
   flowchart_levels cycle_abc = [(''A'', 0), (''B'', 1), (''C'', 2)]"
proof -
  have t: "topological_sort (graph cycle_abc) =
     Inl (NetworkXUnfeasible ''Graph contains a cycle or graph changed during iteration'')"
    by (simp add: topological_sort_def in_degree_def edges_def cycle_abc_graph
        generations.simps)
  have c: "topological_sort (graph chain_abc) = Inr [''A'', ''B'', ''C'']"
    by (simp add: topological_sort_def in_degree_def edges_def chain_abc_graph
        generations.simps has_node_nodes neighbors_def keys_def)
  have d: "dependency_analysis chain_abc =
     Inr [ExecutionOrder [''A'', ''B'', ''C''], EntryPoints [''A''], ExitPoints [''C'']]"
    by (simp add: dependency_analysis_def c in_degree_def out_degree_def edges_def
        chain_abc_graph neighbors_def keys_def)
  have f: "flowchart_levels cycle_abc = [(''A'', 0), (''B'', 1), (''C'', 2)]"
    by (simp add: flowchart_levels_def t cycle_abc_graph upt_rec)
  have e: "edges (graph cycle_abc) =
     [(''A'', ''B'', [(''variable_passed'', PNone), (''created_at'', PStr ''t4'')]),
      (''B'', ''C'', [(''variable_passed'', PNone), (''created_at'', PStr ''t5'')]),
      (''C'', ''A'', [(''variable_passed'', PNone), (''created_at'', PStr ''t6'')])]"
    by (simp add: edges_def cycle_abc_graph)
  from t d f e show ?thesis
    by (simp add: dependency_analysis_def)
qed


section \<open>Correctness of the topological sort\<close>

lemma counts_step:
  assumes "counts U im" and "(u, c) \<in> U"
  shows "\<exists>d. map_of im c = Some d \<and> 0 < d \<and>
           counts (U - {(u, c)})
             (if d - 1 = 0 then AList.delete c im else AList.update c (d - 1) im)"
proof -
  let ?P = "{u'. (u', c) \<in> U}"
  let ?U' = "U - {(u, c)}"
  from assms(1) have fin: "finite U" by (simp add: counts_def)
  have "?P \<subseteq> fst ` U" by force
  then have finP: "finite ?P"
    by (rule finite_subset) (rule finite_imageI [OF fin])
  define d where "d = int (card ?P)"
  from assms have m: "map_of im c = Some d" by (auto simp: counts_def d_def)
  from assms(2) have "u \<in> ?P" by simp
  with finP have pos: "0 < d" unfolding d_def by (auto simp: card_gt_0_iff)
  have P': "{u'. (u', c) \<in> ?U'} = ?P - {u}" by auto
  from pos have c1: "0 < card ?P" by (simp add: d_def)
  from P' finP \<open>u \<in> ?P\<close> have "card {u'. (u', c) \<in> ?U'} = card ?P - 1"
    by (simp only: card_Diff_singleton)
  with c1 have card': "int (card {u'. (u', c) \<in> ?U'}) = d - 1"
    unfolding d_def by linarith
  have other: "\<And>v. v \<noteq> c \<Longrightarrow> {u'. (u', v) \<in> ?U'} = {u'. (u', v) \<in> U}" by auto
  have fin': "finite ?U'" using fin by simp
  show ?thesis
  proof (cases "d - 1 = 0")
    case True
    with card' finP P' have empty: "{u'. (u', c) \<in> ?U'} = {}"
      by (metis card_eq_0_iff finite_Diff of_nat_eq_0_iff)
    have "counts ?U' (AList.delete c im)"
      unfolding counts_def
    proof (intro conjI allI)
      show "finite ?U'" by (rule fin')
      show "distinct (keys (AList.delete c im))"
        using assms(1) by (simp add: counts_def keys_delete distinct_removeAll)
      fix v
      show "map_of (AList.delete c im) v =
            (if \<exists>u'. (u', v) \<in> ?U' then Some (int (card {u'. (u', v) \<in> ?U'})) else None)"
      proof (cases "v = c")
        case True
        with empty show ?thesis by (auto simp: AList.delete_conv')
      next
        case False
        with assms(1) other [OF False] show ?thesis
          by (auto simp: counts_def AList.delete_conv')
      qed
    qed
    with m pos True show ?thesis by auto
  next
    case False
    have ne: "{u'. (u', c) \<in> ?U'} \<noteq> {}"
    proof
      assume "{u'. (u', c) \<in> ?U'} = {}"
      then have "card {u'. (u', c) \<in> ?U'} = 0" by (simp only: card.empty)
      with card' False show False by simp
    qed
    have "counts ?U' (AList.update c (d - 1) im)"
      unfolding counts_def
    proof (intro conjI allI)
      show "finite ?U'" by (rule fin')
      show "distinct (keys (AList.update c (d - 1) im))"
        using assms(1) by (simp add: counts_def keys_update)
      fix v
      show "map_of (AList.update c (d - 1) im) v =
            (if \<exists>u'. (u', v) \<in> ?U' then Some (int (card {u'. (u', v) \<in> ?U'})) else None)"
      proof (cases "v = c")
        case True
        with ne card' show ?thesis by (auto simp: AList.update_conv')
      next
        case False
        with assms(1) other [OF False] show ?thesis
          by (auto simp: counts_def AList.update_conv')
      qed
    qed
    with m pos False show ?thesis by auto
  qed
qed

lemma visit_children_counts:
  assumes "counts U im" and "distinct cs" and "\<forall>c \<in> set cs. (u, c) \<in> U"
  shows "\<exists>im' z'. visit_children cs im z = Inr (im', z') \<and> counts (U - {u} \<times> set cs) im'"
  using assms
proof (induction cs arbitrary: U im z)
  case Nil
  then show ?case by simp
next
  case (Cons c cs)
  from Cons.prems have uc: "(u, c) \<in> U" by simp
  from counts_step [OF Cons.prems(1) uc] obtain d where
    m: "map_of im c = Some d" and
    k: "counts (U - {(u, c)}) (if d - 1 = 0 then AList.delete c im else AList.update c (d - 1) im)"
    by blast
  from Cons.prems have "distinct cs" and "\<forall>c' \<in> set cs. (u, c') \<in> U - {(u, c)}" by auto
  from Cons.IH [OF k this] have
    "\<exists>im' z'. visit_children cs (if d - 1 = 0 then AList.delete c im else AList.update c (d - 1) im)
         (if d - 1 = 0 then z @ [c] else z) = Inr (im', z') \<and>
       counts (U - {(u, c)} - {u} \<times> set cs) im'" .
  moreover have "U - {(u, c)} - {u} \<times> set cs = U - {u} \<times> set (c # cs)" by auto
  ultimately show ?case using m by (cases "d - 1 = 0") auto
qed

lemma visit_children_partition:
  "visit_children cs im z = Inr (im', z') \<Longrightarrow> distinct (keys im) \<Longrightarrow> distinct z \<Longrightarrow>
   set z \<inter> set (keys im) = {} \<Longrightarrow>
   distinct (keys im') \<and> distinct z' \<and> set z' \<inter> set (keys im') = {} \<and>
   set z' \<union> set (keys im') = set z \<union> set (keys im)"
proof (induction cs arbitrary: im z)
  case Nil
  then show ?case by simp
next
  case (Cons c cs)
  from Cons.prems(1) obtain d where d: "map_of im c = Some d"
    by (auto split: option.splits)
  then have cin: "c \<in> set (keys im)" using map_of_keys [of im c] by simp
  show ?case
  proof (cases "d - 1 = 0")
    case True
    with Cons.prems(1) d have r: "visit_children cs (AList.delete c im) (z @ [c]) = Inr (im', z')"
      by simp
    from Cons.prems cin have
      "distinct (keys (AList.delete c im))" "distinct (z @ [c])"
      "set (z @ [c]) \<inter> set (keys (AList.delete c im)) = {}"
      by (auto simp: keys_delete distinct_removeAll)
    from Cons.IH [OF r this] cin show ?thesis by (auto simp: keys_delete)
  next
    case False
    with Cons.prems(1) d have r: "visit_children cs (AList.update c (d - 1) im) z = Inr (im', z')"
      by simp
    from cin have k: "keys (AList.update c (d - 1) im) = keys im" by (simp add: keys_update)
    from Cons.IH [OF r] Cons.prems show ?thesis by (simp add: k)
  qed
qed

lemma visit_generation_partition:
  "visit_generation g ns im z = Inr (im', z') \<Longrightarrow> distinct (keys im) \<Longrightarrow> distinct z \<Longrightarrow>
   set z \<inter> set (keys im) = {} \<Longrightarrow>
   distinct (keys im') \<and> distinct z' \<and> set z' \<inter> set (keys im') = {} \<and>
   set z' \<union> set (keys im') = set z \<union> set (keys im)"
proof (induction ns arbitrary: im z)
  case Nil
  then show ?case by simp
next
  case (Cons n ns)
  from Cons.prems(1) obtain im1 z1 where
    c: "visit_children (neighbors g n) im z = Inr (im1, z1)" and
    r: "visit_generation g ns im1 z1 = Inr (im', z')"
    by (auto split: if_splits sum.splits)
  from visit_children_partition [OF c Cons.prems(2,3,4)] have
    1: "distinct (keys im1)" "distinct z1" "set z1 \<inter> set (keys im1) = {}" and
    2: "set z1 \<union> set (keys im1) = set z \<union> set (keys im)"
    by simp_all
  from Cons.IH [OF r 1] 2 show ?case by simp
qed

lemma visit_generation_counts:
  assumes "counts U im" and "distinct ns" and "\<forall>n \<in> set ns. has_node g n"
    and "\<forall>n \<in> set ns. distinct (neighbors g n)"
    and "\<forall>n \<in> set ns. \<forall>c \<in> set (neighbors g n). (n, c) \<in> U"
  shows "\<exists>im' z'. visit_generation g ns im z = Inr (im', z') \<and>
           counts (U - {(n, c). n \<in> set ns \<and> c \<in> set (neighbors g n)}) im'"
  using assms
proof (induction ns arbitrary: U im z)
  case Nil
  then show ?case by simp
next
  case (Cons n ns)
  from Cons.prems have hn: "has_node g n" and dn: "distinct (neighbors g n)"
    and un: "\<forall>c \<in> set (neighbors g n). (n, c) \<in> U" by simp_all
  from visit_children_counts [OF Cons.prems(1) dn un, of z] obtain im1 z1 where
    c: "visit_children (neighbors g n) im z = Inr (im1, z1)" and
    k: "counts (U - {n} \<times> set (neighbors g n)) im1"
    by blast
  from Cons.prems have rest: "distinct ns" "\<forall>m \<in> set ns. has_node g m"
    "\<forall>m \<in> set ns. distinct (neighbors g m)"
    "\<forall>m \<in> set ns. \<forall>c \<in> set (neighbors g m). (m, c) \<in> U - {n} \<times> set (neighbors g n)"
    by auto
  from Cons.IH [OF k rest, of z1] obtain im' z' where
    r: "visit_generation g ns im1 z1 = Inr (im', z')" and
    k': "counts (U - {n} \<times> set (neighbors g n) -
           {(m, c). m \<in> set ns \<and> c \<in> set (neighbors g m)}) im'"
    by blast
  have "U - {n} \<times> set (neighbors g n) - {(m, c). m \<in> set ns \<and> c \<in> set (neighbors g m)} =
        U - {(m, c). m \<in> set (n # ns) \<and> c \<in> set (neighbors g m)}"
    by auto
  with k' c r hn show ?case by simp
qed

lemma wf_neighbors:
  assumes "wf_digraph g"
  shows "distinct (neighbors g n) \<and> set (neighbors g n) \<subseteq> set (nodes g)"
proof (cases "map_of (g_adj g) n")
  case None
  then show ?thesis by (simp add: neighbors_def)
next
  case (Some nbrs)
  from assms have "list_all (\<lambda>(u, nbrs). distinct (keys nbrs) \<and>
      set (keys nbrs) \<subseteq> set (keys (g_node g))) (g_adj g)"
    by (simp add: wf_digraph_def)
  from map_of_list_all [OF this Some] Some show ?thesis
    by (simp add: neighbors_def nodes_def)
qed

lemma neighbors_source:
  assumes "wf_digraph g" and "v \<in> set (neighbors g u)"
  shows "u \<in> set (nodes g)"
proof (cases "map_of (g_adj g) u")
  case None
  with assms(2) show ?thesis by (simp add: neighbors_def)
next
  case (Some nbrs)
  then have "u \<in> set (keys (g_adj g))" using map_of_keys [of "g_adj g" u] by simp
  with assms(1) show ?thesis by (simp add: wf_digraph_def nodes_def)
qed

lemma edge_rel_nodes:
  "wf_digraph g \<Longrightarrow> (u, v) \<in> edge_rel g \<Longrightarrow> u \<in> set (nodes g) \<and> v \<in> set (nodes g)"
  using wf_neighbors [of g u] neighbors_source [of g v u] by (auto simp: edge_rel_def)

lemma finite_edge_rel: "wf_digraph g \<Longrightarrow> finite (edge_rel g)"
proof -
  assume "wf_digraph g"
  then have "edge_rel g \<subseteq> set (nodes g) \<times> set (nodes g)"
    using edge_rel_nodes by auto
  then show ?thesis by (rule finite_subset) simp
qed

lemma kahn_step:
  assumes wf: "wf_digraph g" and inv: "kahn_inv g D z im"
  shows "\<exists>im' z'. visit_generation g z im [] = Inr (im', z') \<and> kahn_inv g (D \<union> set z) z' im'"
proof -
  let ?U = "{(u, v). (u, v) \<in> edge_rel g \<and> u \<notin> D}"
  from inv have k: "counts ?U im" and dz: "distinct z"
    and zi: "set z \<inter> set (keys im) = {}" and D: "D \<subseteq> set (nodes g)"
    and part: "set z \<union> set (keys im) = set (nodes g) - D"
    by (simp_all add: kahn_inv_def)
  from part have zn: "\<forall>n \<in> set z. has_node g n" and zD: "set z \<inter> D = {}"
    by (auto simp: has_node_nodes)
  from wf have dn: "\<forall>n \<in> set z. distinct (neighbors g n)" by (simp add: wf_neighbors)
  from zD have out: "\<forall>n \<in> set z. \<forall>c \<in> set (neighbors g n). (n, c) \<in> ?U"
    by (auto simp: edge_rel_def)
  from visit_generation_counts [OF k dz zn dn out, of "[]"] obtain im' z' where
    v: "visit_generation g z im [] = Inr (im', z')" and
    k': "counts (?U - {(n, c). n \<in> set z \<and> c \<in> set (neighbors g n)}) im'"
    by blast
  have "?U - {(n, c). n \<in> set z \<and> c \<in> set (neighbors g n)} =
        {(u, v). (u, v) \<in> edge_rel g \<and> u \<notin> D \<union> set z}"
    by (auto simp: edge_rel_def)
  with k' have k'': "counts {(u, v). (u, v) \<in> edge_rel g \<and> u \<notin> D \<union> set z} im'" by simp
  from k have "distinct (keys im)" by (simp add: counts_def)
  from visit_generation_partition [OF v this] have
    p: "distinct z'" "set z' \<inter> set (keys im') = {}" "set z' \<union> set (keys im') = set (keys im)"
    by simp_all
  from part zi p(3) have "set z' \<union> set (keys im') = set (nodes g) - (D \<union> set z)" by auto
  moreover from part D have "D \<union> set z \<subseteq> set (nodes g)" by auto
  ultimately have "kahn_inv g (D \<union> set z) z' im'"
    using k'' p(1,2) by (simp add: kahn_inv_def)
  with v show ?thesis by blast
qed

lemma edges_forward_append:
  assumes "\<forall>v \<in> set z. \<forall>u. (u, v) \<in> edge_rel g \<longrightarrow> u \<in> D"
    and "edges_forward g (D \<union> set z) rest"
  shows "edges_forward g D (z @ rest)"
  unfolding edges_forward_def
proof (intro allI impI)
  fix i u
  assume i: "i < length (z @ rest)" and e: "(u, (z @ rest) ! i) \<in> edge_rel g"
  show "u \<in> D \<union> set (take i (z @ rest))"
  proof (cases "i < length z")
    case True
    with e assms(1) show ?thesis by (auto simp: nth_append)
  next
    case False
    with i have j: "i - length z < length rest" by simp
    from False e have "(u, rest ! (i - length z)) \<in> edge_rel g" by (simp add: nth_append)
    with assms(2) j have "u \<in> D \<union> set z \<union> set (take (i - length z) rest)"
      by (auto simp: edges_forward_def)
    with False show ?thesis by auto
  qed
qed

lemma generations_correct:
  "wf_digraph g \<Longrightarrow> kahn_inv g D z im \<Longrightarrow>
    (\<exists>gens. generations g z im = Inr gens \<and> distinct (concat gens) \<and>
        set (concat gens) = set (nodes g) - D \<and> edges_forward g D (concat gens)) \<or>
    (generations g z im =
        Inl (NetworkXUnfeasible ''Graph contains a cycle or graph changed during iteration'') \<and>
     (\<exists>S. cyclic_core g S))"
proof (induction g z im arbitrary: D rule: generations.induct)
  case (1 g z im)
  note wf = "1.prems"(1)
  from "1.prems"(2) have k: "counts {(u, v). (u, v) \<in> edge_rel g \<and> u \<notin> D} im"
    and dz: "distinct z" and part: "set z \<union> set (keys im) = set (nodes g) - D"
    by (simp_all add: kahn_inv_def)
  show ?case
  proof (cases "z = []")
    case True
    show ?thesis
    proof (cases "im = []")
      case True
      with \<open>z = []\<close> part have "set (nodes g) - D = {}" by (simp add: keys_def)
      moreover from True \<open>z = []\<close> have "generations g z im = Inr []"
        by (subst generations.simps) simp
      ultimately show ?thesis by (simp add: edges_forward_def)
    next
      case False
      with \<open>z = []\<close> have r: "generations g z im =
          Inl (NetworkXUnfeasible ''Graph contains a cycle or graph changed during iteration'')"
        by (subst generations.simps) simp
      have "cyclic_core g (set (keys im))"
        unfolding cyclic_core_def
      proof (intro conjI ballI)
        from False show "set (keys im) \<noteq> {}" by (simp add: keys_def)
        from part show "set (keys im) \<subseteq> set (nodes g)" by auto
        fix v
        assume "v \<in> set (keys im)"
        then have "map_of im v \<noteq> None" using map_of_keys [of im v] by simp
        with k obtain u where u: "(u, v) \<in> edge_rel g" "u \<notin> D"
          by (auto simp: counts_def split: if_splits)
        from edge_rel_nodes [OF wf u(1)] u(2) part \<open>z = []\<close> have "u \<in> set (keys im)" by auto
        with u(1) show "\<exists>u \<in> set (keys im). (u, v) \<in> edge_rel g" by blast
      qed
      with r show ?thesis by blast
    qed
  next
    case False
    from kahn_step [OF wf "1.prems"(2)] obtain im' z' where
      v: "visit_generation g z im [] = Inr (im', z')" and
      inv': "kahn_inv g (D \<union> set z) z' im'"
      by blast
    from "1.IH" [OF False v refl wf inv'] show ?thesis
    proof
      assume "\<exists>gens. generations g z' im' = Inr gens \<and> distinct (concat gens) \<and>
        set (concat gens) = set (nodes g) - (D \<union> set z) \<and> edges_forward g (D \<union> set z) (concat gens)"
      then obtain later where
        l: "generations g z' im' = Inr later" and d: "distinct (concat later)" and
        s: "set (concat later) = set (nodes g) - (D \<union> set z)" and
        r: "edges_forward g (D \<union> set z) (concat later)"
        by blast
      from False v l have g: "generations g z im = Inr (z # later)"
        by (subst generations.simps) simp
      have preds: "\<forall>x \<in> set z. \<forall>u. (u, x) \<in> edge_rel g \<longrightarrow> u \<in> D"
      proof (intro ballI allI impI)
        fix x u
        assume x: "x \<in> set z" and e: "(u, x) \<in> edge_rel g"
        show "u \<in> D"
        proof (rule ccontr)
          assume "u \<notin> D"
          with e k have "map_of im x \<noteq> None" by (auto simp: counts_def)
          then have "x \<in> set (keys im)" using map_of_keys [of im x] by simp
          with x "1.prems"(2) show False by (auto simp: kahn_inv_def)
        qed
      qed
      from preds r have "edges_forward g D (z @ concat later)" by (rule edges_forward_append)
      moreover from d dz s have "distinct (z @ concat later)" by auto
      moreover from s part have "set (z @ concat later) = set (nodes g) - D" by auto
      ultimately show ?thesis using g by simp
    next
      assume "generations g z' im' =
          Inl (NetworkXUnfeasible ''Graph contains a cycle or graph changed during iteration'') \<and>
        (\<exists>S. cyclic_core g S)"
      with False v show ?thesis by (subst generations.simps) simp
    qed
  qed
qed

lemma position_nth: "x \<in> set xs \<Longrightarrow> position x xs < length xs \<and> xs ! position x xs = x"
  by (induction xs) auto

lemma position_take: "x \<in> set (take i xs) \<Longrightarrow> position x xs < i"
proof (induction xs arbitrary: i)
  case Nil
  then show ?case by simp
next
  case (Cons y ys)
  then show ?case by (cases i) auto
qed

lemma position_first: "xs ! i = x \<Longrightarrow> i < length xs \<Longrightarrow> position x xs \<le> i"
proof (induction xs arbitrary: i)
  case Nil
  then show ?case by simp
next
  case (Cons y ys)
  then show ?case by (cases i) auto
qed

lemma forward_acyclic:
  assumes "wf_digraph g" and "set order = set (nodes g)" and "edges_forward g {} order"
  shows "acyclic (edge_rel g)"
proof -
  have "edge_rel g \<subseteq> inv_image less_than (\<lambda>x. position x order)"
  proof
    fix e
    assume e: "e \<in> edge_rel g"
    obtain u v where uv: "e = (u, v)" by (cases e)
    from edge_rel_nodes [OF assms(1)] e uv assms(2) have "v \<in> set order" by simp
    from position_nth [OF this] have
      i: "position v order < length order" "order ! position v order = v" by simp_all
    with assms(3) e uv have "u \<in> set (take (position v order) order)"
      by (auto simp: edges_forward_def)
    then have "position u order < position v order" by (rule position_take)
    with uv show "e \<in> inv_image less_than (\<lambda>x. position x order)" by simp
  qed
  moreover have "wf (inv_image less_than (\<lambda>x. position x order))" by simp
  ultimately have "wf (edge_rel g)" by (rule wf_subset [rotated])
  then show ?thesis by (rule wf_acyclic)
qed

lemma cyclic_core_not_acyclic:
  assumes "wf_digraph g" and "cyclic_core g S"
  shows "\<not> acyclic (edge_rel g)"
proof
  assume "acyclic (edge_rel g)"
  with finite_edge_rel [OF assms(1)] have "wf (edge_rel g)" by (rule finite_acyclic_wf)
  then have m: "\<forall>Q x. x \<in> Q \<longrightarrow> (\<exists>z \<in> Q. \<forall>y. (y, z) \<in> edge_rel g \<longrightarrow> y \<notin> Q)"
    by (simp only: wf_eq_minimal)
  from assms(2) obtain x where "x \<in> S" by (auto simp: cyclic_core_def)
  with m obtain z where "z \<in> S" and "\<forall>y. (y, z) \<in> edge_rel g \<longrightarrow> y \<notin> S" by blast
  with assms(2) show False by (auto simp: cyclic_core_def)
qed

lemma in_edges_count:
  "list_all (\<lambda>(x, nbrs). distinct (keys nbrs)) adj \<Longrightarrow>
   length (filter (\<lambda>e. fst (snd e) = v)
             (concat (map (\<lambda>(u, nbrs). map (\<lambda>(w, d). (u, w, d)) nbrs) adj))) =
   length (filter (\<lambda>(u, nbrs). v \<in> set (keys nbrs)) adj)"
proof (induction adj)
  case Nil
  then show ?case by simp
next
  case (Cons a adj)
  obtain x nb where a: "a = (x, nb)" by (cases a)
  with Cons.prems have "distinct (keys nb)" by simp
  then have "filter (\<lambda>e. fst e = v) nb = (case map_of nb v of None \<Rightarrow> [] | Some d \<Rightarrow> [(v, d)])"
    by (rule filter_key_map_of)
  moreover have "filter (\<lambda>e. fst (snd e) = v) (map (Pair x) nb) =
                 map (Pair x) (filter (\<lambda>e. fst e = v) nb)"
    by (induction nb) auto
  ultimately have "length (filter (\<lambda>e. fst (snd e) = v) (map (Pair x) nb)) =
                   (if v \<in> set (keys nb) then 1 else 0)"
    using map_of_keys [of nb v] by (auto split: option.splits)
  with Cons a show ?case by simp
qed

lemma filter_by_value:
  "distinct (map fst adj) \<Longrightarrow>
   map fst (filter (\<lambda>(u, nbrs). P nbrs) adj) =
   filter (\<lambda>u. case map_of adj u of None \<Rightarrow> False | Some nbrs \<Rightarrow> P nbrs) (map fst adj)"
proof (induction adj)
  case Nil
  then show ?case by simp
next
  case (Cons a adj)
  obtain x nb where a: "a = (x, nb)" by (cases a)
  from Cons.prems a have "x \<notin> set (map fst adj)" by simp
  then have "filter (\<lambda>u. case map_of (a # adj) u of None \<Rightarrow> False | Some nbrs \<Rightarrow> P nbrs) (map fst adj) =
             filter (\<lambda>u. case map_of adj u of None \<Rightarrow> False | Some nbrs \<Rightarrow> P nbrs) (map fst adj)"
    by (intro filter_cong refl) (auto simp: a)
  with Cons a show ?case by simp
qed

lemma in_degree_card:
  assumes "wf_digraph g"
  shows "in_degree g v = int (card {u. (u, v) \<in> edge_rel g})"
proof -
  from assms have d: "distinct (map fst (g_adj g))"
    and l: "list_all (\<lambda>(x, nbrs). distinct (keys nbrs)) (g_adj g)"
    by (auto simp: wf_digraph_def keys_def list_all_iff)
  let ?Q = "\<lambda>u. case map_of (g_adj g) u of None \<Rightarrow> False | Some nbrs \<Rightarrow> v \<in> set (keys nbrs)"
  have q: "?Q u = (v \<in> set (neighbors g u))" for u
    by (simp add: neighbors_def split: option.splits)
  have "length (filter (\<lambda>e. fst (snd e) = v) (edges g)) =
        length (filter (\<lambda>(u, nbrs). v \<in> set (keys nbrs)) (g_adj g))"
    unfolding edges_def by (rule in_edges_count [OF l])
  also have "\<dots> = length (map fst (filter (\<lambda>(u, nbrs). v \<in> set (keys nbrs)) (g_adj g)))"
    by simp
  also have "\<dots> = length (filter ?Q (map fst (g_adj g)))"
    by (simp only: filter_by_value [OF d])
  also have "\<dots> = card (set (filter ?Q (map fst (g_adj g))))"
    by (rule distinct_card [symmetric, OF distinct_filter [OF d]])
  also have "set (filter ?Q (map fst (g_adj g))) = {u. (u, v) \<in> edge_rel g}"
    using neighbors_source [OF assms, of v] assms
    by (auto simp: q edge_rel_def wf_digraph_def nodes_def keys_def)
  finally show ?thesis by (simp add: in_degree_def)
qed

lemma map_of_tabulate:
  "map_of (filter (\<lambda>(v, d). P d) (map (\<lambda>v. (v, f v)) xs)) v =
     (if v \<in> set xs \<and> P (f v) then Some (f v) else None)"
  by (induction xs) auto

lemma keys_tabulate:
  "map fst (filter (\<lambda>(v, d). P d) (map (\<lambda>v. (v, f v)) xs)) = filter (\<lambda>v. P (f v)) xs"
  by (induction xs) auto

lemma kahn_inv_initial:
  assumes wf: "wf_digraph g"
  shows "kahn_inv g {}
           (map fst (filter (\<lambda>(v, d). d = 0) (map (\<lambda>v. (v, in_degree g v)) (nodes g))))
           (filter (\<lambda>(v, d). d > 0) (map (\<lambda>v. (v, in_degree g v)) (nodes g)))"
proof -
  let ?im = "filter (\<lambda>(v, d). d > 0) (map (\<lambda>v. (v, in_degree g v)) (nodes g))"
  let ?z = "map fst (filter (\<lambda>(v, d). d = 0) (map (\<lambda>v. (v, in_degree g v)) (nodes g)))"
  from wf have dn: "distinct (nodes g)" by (simp add: wf_digraph_def nodes_def)
  have fin: "finite (edge_rel g)" using wf by (rule finite_edge_rel)
  have kz: "?z = filter (\<lambda>v. in_degree g v = 0) (nodes g)" by (rule keys_tabulate)
  have ki: "keys ?im = filter (\<lambda>v. in_degree g v > 0) (nodes g)"
    unfolding keys_def by (rule keys_tabulate)
  have nonneg: "0 \<le> in_degree g v" for v by (simp add: in_degree_def)
  have finP: "finite {u. (u, v) \<in> edge_rel g}" for v
  proof -
    have "{u. (u, v) \<in> edge_rel g} \<subseteq> fst ` edge_rel g" by force
    then show ?thesis by (rule finite_subset) (rule finite_imageI [OF fin])
  qed
  have pos: "(\<exists>u. (u, v) \<in> edge_rel g) = (v \<in> set (nodes g) \<and> in_degree g v > 0)" for v
  proof
    assume "\<exists>u. (u, v) \<in> edge_rel g"
    then obtain u where u: "(u, v) \<in> edge_rel g" by blast
    with finP [of v] have "0 < card {u. (u, v) \<in> edge_rel g}" by (auto simp: card_gt_0_iff)
    with edge_rel_nodes [OF wf u] show "v \<in> set (nodes g) \<and> in_degree g v > 0"
      by (simp add: in_degree_card [OF wf])
  next
    assume "v \<in> set (nodes g) \<and> in_degree g v > 0"
    then have "0 < card {u. (u, v) \<in> edge_rel g}" by (simp add: in_degree_card [OF wf])
    then have "{u. (u, v) \<in> edge_rel g} \<noteq> {}" by (auto simp: card_gt_0_iff)
    then show "\<exists>u. (u, v) \<in> edge_rel g" by blast
  qed
  have c: "counts (edge_rel g) ?im"
    unfolding counts_def
  proof (intro conjI allI)
    show "finite (edge_rel g)" by (rule fin)
    show "distinct (keys ?im)" unfolding ki using dn by (rule distinct_filter)
    fix v
    show "map_of ?im v =
          (if \<exists>u. (u, v) \<in> edge_rel g then Some (int (card {u. (u, v) \<in> edge_rel g})) else None)"
      unfolding map_of_tabulate pos by (simp add: in_degree_card [OF wf])
  qed
  have "{(u, v). (u, v) \<in> edge_rel g \<and> u \<notin> {}} = edge_rel g" by auto
  with c have c': "counts {(u, v). (u, v) \<in> edge_rel g \<and> u \<notin> {}} ?im" by simp
  have dz: "distinct ?z" unfolding kz using dn by (rule distinct_filter)
  have disj: "set ?z \<inter> set (keys ?im) = {}" unfolding kz ki by auto
  have part: "set ?z \<union> set (keys ?im) = set (nodes g) - {}"
    unfolding kz ki using nonneg by (auto simp: less_le)
  from c' dz disj part show ?thesis unfolding kahn_inv_def by simp
qed

text \<open>
  On a well-formed graph the sort returns an order exactly when the graph is acyclic:
  the order then holds every node once and every edge points from an earlier node to a
  later one. On a graph with a cycle it raises \<open>NetworkXUnfeasible\<close>.
\<close>

theorem topological_sort_correct:
  assumes "wf_digraph g"
  shows "(acyclic (edge_rel g) \<longrightarrow>
            (\<exists>order. topological_sort g = Inr order \<and> distinct order \<and>
               set order = set (nodes g) \<and> edges_forward g {} order)) \<and>
         (\<not> acyclic (edge_rel g) \<longrightarrow>
            topological_sort g =
              Inl (NetworkXUnfeasible ''Graph contains a cycle or graph changed during iteration''))"
proof -
  let ?im = "filter (\<lambda>(v, d). d > 0) (map (\<lambda>v. (v, in_degree g v)) (nodes g))"
  let ?z = "map fst (filter (\<lambda>(v, d). d = 0) (map (\<lambda>v. (v, in_degree g v)) (nodes g)))"
  have t: "topological_sort g =
      (case generations g ?z ?im of Inl e \<Rightarrow> Inl e | Inr gens \<Rightarrow> Inr (concat gens))"
    by (simp add: topological_sort_def Let_def)
  from generations_correct [OF assms kahn_inv_initial [OF assms]]
  consider (ok) gens where "generations g ?z ?im = Inr gens" "distinct (concat gens)"
      "set (concat gens) = set (nodes g) - {}" "edges_forward g {} (concat gens)"
    | (cyc) S where "generations g ?z ?im =
        Inl (NetworkXUnfeasible ''Graph contains a cycle or graph changed during iteration'')"
      "cyclic_core g S"
    by blast
  then show ?thesis
  proof cases
    case ok
    then have r: "topological_sort g = Inr (concat gens)" by (simp add: t)
    from ok have "acyclic (edge_rel g)"
      using forward_acyclic [OF assms, of "concat gens"] by simp
    with r ok show ?thesis by simp
  next
    case cyc
    then have r: "topological_sort g =
        Inl (NetworkXUnfeasible ''Graph contains a cycle or graph changed during iteration'')"
      by (simp add: t)
    from cyc have "\<not> acyclic (edge_rel g)"
      using cyclic_core_not_acyclic [OF assms] by blast
    with r show ?thesis by simp
  qed
qed

text \<open>
  So, in every state of the engine, the dependency analysis reports the execution order
  of an acyclic graph, and on a graph with a cycle the exception of the sort leaves it.
\<close>

lemma dependency_analysis_reachable:
  assumes "reachable self"
  shows "(acyclic (edge_rel (graph self)) \<longrightarrow>
            (\<exists>order entry exit.
               dependency_analysis self =
                 Inr [ExecutionOrder order, EntryPoints entry, ExitPoints exit] \<and>
               distinct order \<and> set order = set (nodes (graph self)) \<and>
               edges_forward (graph self) {} order)) \<and>
         (\<not> acyclic (edge_rel (graph self)) \<longrightarrow>
            dependency_analysis self =
              Inl (NetworkXUnfeasible ''Graph contains a cycle or graph changed during iteration''))"
proof -
  from assms have "invariant self" by (rule reachable_invariant)
  then have "wf_digraph (graph self)" by (simp add: invariant_def)
  from topological_sort_correct [OF this] show ?thesis
    by (auto simp: dependency_analysis_passes_on)
qed

end
